theory Spec2Isabelle
  imports Main "HOL-Library.Char_ord"
begin

section \<open>The observable end-of-turn rule: \<open>agentWorking\<close>\<close>

text \<open>
  The server reports, with every stream snapshot, whether the agent is still working on
  the conversation. The Go function \<open>agentWorking\<close> reads only two fields of an
  \<open>APIMessage\<close>: \<open>Type\<close> (a string) and \<open>EndOfTurn\<close> (a \<open>*bool\<close>, here a
  \<open>bool option\<close> with \<open>None\<close> for the nil pointer).
\<close>

record APIMessage =
  SequenceID :: int
  Type :: string
  EndOfTurn :: "bool option"

text \<open>
  Modelled from the spec: the constants \<open>db.MessageTypeAgent\<close>, \<open>db.MessageTypeError\<close>,
  \<open>db.MessageTypeGitInfo\<close> (and their siblings) are declared in the database package;
  the specification lists the message types as user, agent, tool, error, gitinfo.
\<close>

definition MessageTypeUser :: string where
  "MessageTypeUser = ''user''"

definition MessageTypeAgent :: string where
  "MessageTypeAgent = ''agent''"

definition MessageTypeTool :: string where
  "MessageTypeTool = ''tool''"

definition MessageTypeError :: string where
  "MessageTypeError = ''error''"

definition MessageTypeGitInfo :: string where
  "MessageTypeGitInfo = ''gitinfo''"

text \<open>
  The first loop of \<open>agentWorking\<close>:
  \<^verbatim>\<open>for lastIdx >= 0 && messages[lastIdx].Type == string(db.MessageTypeGitInfo) { lastIdx-- }\<close>
  The index is a Go \<open>int\<close> that may reach \<open>-1\<close>; the read happens only when it is
  non-negative, and it starts at \<open>len(messages) - 1\<close>, so it is always in range.
\<close>

function skipGitInfo :: "APIMessage list \<Rightarrow> int \<Rightarrow> int" where
  "skipGitInfo messages lastIdx =
     (if lastIdx \<ge> 0 \<and> Type (messages ! nat lastIdx) = MessageTypeGitInfo
      then skipGitInfo messages (lastIdx - 1)
      else lastIdx)"
  by pat_completeness auto
termination
  by (relation "measure (\<lambda>(messages, lastIdx). nat (lastIdx + 1))") auto

text \<open>
  The second loop walks back from \<open>lastIdx\<close> looking for an agent message:
  \<^verbatim>\<open>
  for i := lastIdx; i >= 0; i-- {
      msg := messages[i]
      if msg.Type != string(db.MessageTypeAgent) { continue }
      if msg.EndOfTurn == nil { return true }
      if !*msg.EndOfTurn { return true }
      return true
  }
  return true
  \<close>
\<close>

function findAgent :: "APIMessage list \<Rightarrow> int \<Rightarrow> bool" where
  "findAgent messages i =
     (if i \<ge> 0 then
        (let msg = messages ! nat i in
         if Type msg \<noteq> MessageTypeAgent then findAgent messages (i - 1)
         else (case EndOfTurn msg of
                 None \<Rightarrow> True
               | Some e \<Rightarrow> if \<not> e then True else True))
      else True)"
  by pat_completeness auto
termination
  by (relation "measure (\<lambda>(messages, i). nat (i + 1))") auto

definition agentWorking :: "APIMessage list \<Rightarrow> bool" where
  "agentWorking messages =
     (if length messages = 0 then False
      else
        (let lastIdx = skipGitInfo messages (int (length messages) - 1) in
         if lastIdx < 0 then False
         else
           (let last = messages ! nat lastIdx in
            if Type last = MessageTypeError then False
            else if Type last = MessageTypeAgent then
              (case EndOfTurn last of None \<Rightarrow> True | Some e \<Rightarrow> \<not> e)
            else findAgent messages lastIdx)))"

text \<open>
  The specification's wording of the rule: drop the trailing gitinfo entries and look at
  the entry that is then last.
\<close>

definition ignoreTrailingGitInfo :: "APIMessage list \<Rightarrow> APIMessage list" where
  "ignoreTrailingGitInfo messages =
     rev (dropWhile (\<lambda>m. Type m = MessageTypeGitInfo) (rev messages))"

definition endsTurn :: "APIMessage \<Rightarrow> bool" where
  "endsTurn m \<longleftrightarrow>
     (Type m = MessageTypeAgent \<and> EndOfTurn m = Some True) \<or> Type m = MessageTypeError"

definition tailEndsTurn :: "APIMessage list \<Rightarrow> bool" where
  "tailEndsTurn messages =
     (case rev (ignoreTrailingGitInfo messages) of
        [] \<Rightarrow> False
      | m # _ \<Rightarrow> endsTurn m)"

declare skipGitInfo.simps [simp del]

declare findAgent.simps [simp del]

lemma findAgent_True: "findAgent messages i"
proof (induction messages i rule: findAgent.induct)
  case (1 messages i)
  then show ?case
    by (subst findAgent.simps) (simp add: Let_def split: option.split)
qed

lemma skipGitInfo_stop:
  "\<not> (lastIdx \<ge> 0 \<and> Type (messages ! nat lastIdx) = MessageTypeGitInfo) \<Longrightarrow>
     skipGitInfo messages lastIdx = lastIdx"
  by (subst skipGitInfo.simps) auto

lemma skipGitInfo_step:
  "lastIdx \<ge> 0 \<Longrightarrow> Type (messages ! nat lastIdx) = MessageTypeGitInfo \<Longrightarrow>
     skipGitInfo messages lastIdx = skipGitInfo messages (lastIdx - 1)"
  by (subst skipGitInfo.simps) simp

lemma skipGitInfo_append:
  "i < int (length ms) \<Longrightarrow> skipGitInfo (ms @ xs) i = skipGitInfo ms i"
proof (induction ms i rule: skipGitInfo.induct)
  case (1 messages lastIdx)
  show ?case
  proof (cases "lastIdx \<ge> 0")
    case nonneg: True
    with "1.prems" have inb: "nat lastIdx < length messages"
      by linarith
    then have nth: "(messages @ xs) ! nat lastIdx = messages ! nat lastIdx"
      by (simp add: nth_append)
    show ?thesis
    proof (cases "Type (messages ! nat lastIdx) = MessageTypeGitInfo")
      case True
      have "skipGitInfo (messages @ xs) (lastIdx - 1) = skipGitInfo messages (lastIdx - 1)"
        using nonneg True "1.prems" by (intro "1.IH") auto
      then show ?thesis
        using nonneg True nth by (simp add: skipGitInfo_step)
    next
      case False
      then show ?thesis
        using nth by (simp add: skipGitInfo_stop)
    qed
  next
    case False
    then show ?thesis
      by (simp add: skipGitInfo_stop)
  qed
qed

lemma skipGitInfo_length:
  "skipGitInfo messages (int (length messages) - 1) =
     int (length (ignoreTrailingGitInfo messages)) - 1"
proof (induction messages rule: rev_induct)
  case Nil
  show ?case
    by (simp add: skipGitInfo_stop ignoreTrailingGitInfo_def)
next
  case (snoc m ms)
  show ?case
  proof (cases "Type m = MessageTypeGitInfo")
    case True
    have "skipGitInfo (ms @ [m]) (int (length ms)) = skipGitInfo (ms @ [m]) (int (length ms) - 1)"
      using True by (simp add: skipGitInfo_step)
    also have "\<dots> = skipGitInfo ms (int (length ms) - 1)"
      by (rule skipGitInfo_append) simp
    finally show ?thesis
      using snoc True by (simp add: ignoreTrailingGitInfo_def)
  next
    case False
    then show ?thesis
      by (simp add: skipGitInfo_stop ignoreTrailingGitInfo_def)
  qed
qed

lemma ignoreTrailingGitInfo_prefix:
  "\<exists>gs. messages = ignoreTrailingGitInfo messages @ gs \<and>
        (\<forall>g \<in> set gs. Type g = MessageTypeGitInfo)"
proof -
  let ?P = "\<lambda>m. Type m = MessageTypeGitInfo"
  have "rev messages = takeWhile ?P (rev messages) @ dropWhile ?P (rev messages)"
    by simp
  then have "messages = rev (dropWhile ?P (rev messages)) @ rev (takeWhile ?P (rev messages))"
    by (metis rev_append rev_rev_ident)
  moreover have "\<forall>g \<in> set (rev (takeWhile ?P (rev messages))). ?P g"
    by (auto dest: set_takeWhileD)
  ultimately show ?thesis
    unfolding ignoreTrailingGitInfo_def by blast
qed

lemma ignoreTrailingGitInfo_last:
  "ignoreTrailingGitInfo messages \<noteq> [] \<Longrightarrow>
     Type (last (ignoreTrailingGitInfo messages)) \<noteq> MessageTypeGitInfo"
proof -
  let ?P = "\<lambda>m. Type m = MessageTypeGitInfo"
  assume "ignoreTrailingGitInfo messages \<noteq> []"
  then have ne: "dropWhile ?P (rev messages) \<noteq> []"
    by (simp add: ignoreTrailingGitInfo_def)
  then have "\<not> ?P (hd (dropWhile ?P (rev messages)))"
    by (rule hd_dropWhile)
  with ne show ?thesis
    by (simp add: ignoreTrailingGitInfo_def last_rev)
qed

lemma ignoreTrailingGitInfo_snoc:
  "Type m \<noteq> MessageTypeGitInfo \<Longrightarrow> \<forall>g \<in> set gs. Type g = MessageTypeGitInfo \<Longrightarrow>
     ignoreTrailingGitInfo (ms @ [m] @ gs) = ms @ [m]"
proof -
  let ?P = "\<lambda>m. Type m = MessageTypeGitInfo"
  assume m: "Type m \<noteq> MessageTypeGitInfo" and gs: "\<forall>g \<in> set gs. Type g = MessageTypeGitInfo"
  have "dropWhile ?P (rev gs @ m # rev ms) = dropWhile ?P (m # rev ms)"
    using gs by (intro dropWhile_append2) simp
  with m show ?thesis
    by (simp add: ignoreTrailingGitInfo_def)
qed

lemma rev_last_Cons: "xs \<noteq> [] \<Longrightarrow> rev xs = last xs # rev (butlast xs)"
  by (induction xs rule: rev_induct) simp_all

lemma agentWorking_nth_last:
  assumes "ignoreTrailingGitInfo messages \<noteq> []"
  shows "messages ! nat (int (length (ignoreTrailingGitInfo messages)) - 1) =
           last (ignoreTrailingGitInfo messages)"
proof -
  obtain gs where split: "messages = ignoreTrailingGitInfo messages @ gs"
    using ignoreTrailingGitInfo_prefix by blast
  let ?k = "ignoreTrailingGitInfo messages"
  have idx: "nat (int (length ?k) - 1) = length ?k - 1"
    by simp
  have "length ?k - 1 < length ?k"
    using assms by (cases ?k) simp_all
  then have "(?k @ gs) ! (length ?k - 1) = ?k ! (length ?k - 1)"
    by (simp add: nth_append)
  also have "\<dots> = last ?k"
    using assms by (simp add: last_conv_nth)
  finally show ?thesis
    using split idx by metis
qed

lemma agentWorking_unfold:
  "agentWorking messages =
     (case rev (ignoreTrailingGitInfo messages) of
        [] \<Rightarrow> False
      | m # _ \<Rightarrow> \<not> endsTurn m)"
proof (cases "ignoreTrailingGitInfo messages = []")
  case True
  then have "skipGitInfo messages (int (length messages) - 1) = - 1"
    by (simp add: skipGitInfo_length)
  with True show ?thesis
    by (simp add: agentWorking_def)
next
  case False
  define k where "k = last (ignoreTrailingGitInfo messages)"
  from False have nonempty: "messages \<noteq> []"
    by (auto simp: ignoreTrailingGitInfo_def)
  from False have revk: "rev (ignoreTrailingGitInfo messages) =
      k # rev (butlast (ignoreTrailingGitInfo messages))"
    unfolding k_def by (rule rev_last_Cons)
  have idx: "skipGitInfo messages (int (length messages) - 1) =
               int (length (ignoreTrailingGitInfo messages)) - 1"
    by (rule skipGitInfo_length)
  have pos: "\<not> int (length (ignoreTrailingGitInfo messages)) - 1 < 0"
    using False by (cases "ignoreTrailingGitInfo messages") simp_all
  have nth: "messages ! nat (int (length (ignoreTrailingGitInfo messages)) - 1) = k"
    unfolding k_def using False by (rule agentWorking_nth_last)
  have distinct_types: "MessageTypeError \<noteq> MessageTypeAgent"
    by (simp add: MessageTypeError_def MessageTypeAgent_def)
  have "agentWorking messages =
          (if Type k = MessageTypeError then False
           else if Type k = MessageTypeAgent then
             (case EndOfTurn k of None \<Rightarrow> True | Some e \<Rightarrow> \<not> e)
           else True)"
    using nonempty pos
    by (simp add: agentWorking_def idx nth Let_def findAgent_True del: of_nat_diff)
  also have "\<dots> = (\<not> endsTurn k)"
    using distinct_types by (auto simp: endsTurn_def split: option.split)
  finally show ?thesis
    by (simp add: revk)
qed

text \<open>
  Claim C4, as stated: for every message list, \<open>agentWorking\<close> returns false if and only
  if, after ignoring trailing gitinfo entries, the tail entry is an agent entry with
  \<open>end_of_turn = true\<close> or an error entry. The empty list has no tail entry at all, and
  \<open>agentWorking\<close> returns false on it through its guard \<open>len(messages) == 0\<close> (and
  through \<open>lastIdx < 0\<close> on a list of gitinfo entries only), so the equivalence fails there.
\<close>

theorem agentWorking_empty_counterexample:
  "\<not> ((agentWorking [] = False) \<longleftrightarrow> tailEndsTurn [])"
  by (simp add: agentWorking_def tailEndsTurn_def ignoreTrailingGitInfo_def)

text \<open>
  Claim C4, amended: \<open>agentWorking\<close> returns false if and only if, after ignoring trailing
  gitinfo entries, either nothing is left (the list is empty or holds gitinfo entries
  only) or the tail entry is an agent entry with \<open>end_of_turn = true\<close> or an error entry;
  every other tail yields true. In particular a list whose tail is an agent entry with
  \<open>end_of_turn = true\<close> gives false, and still gives false after any number of gitinfo
  entries are appended.
\<close>

theorem agentWorking_false_iff:
  "((agentWorking messages = False) \<longleftrightarrow>
      (ignoreTrailingGitInfo messages = [] \<or> tailEndsTurn messages)) \<and>
   (Type m = MessageTypeAgent \<and> EndOfTurn m = Some True \<and>
      (\<forall>g \<in> set gs. Type g = MessageTypeGitInfo) \<longrightarrow>
      agentWorking (ms @ [m]) = False \<and> agentWorking (ms @ [m] @ gs) = False)"
proof (intro conjI impI)
  show "(agentWorking messages = False) \<longleftrightarrow>
          (ignoreTrailingGitInfo messages = [] \<or> tailEndsTurn messages)"
    by (cases "rev (ignoreTrailingGitInfo messages)")
       (simp_all add: agentWorking_unfold tailEndsTurn_def)
next
  assume h: "Type m = MessageTypeAgent \<and> EndOfTurn m = Some True \<and>
      (\<forall>g \<in> set gs. Type g = MessageTypeGitInfo)"
  then have notgit: "Type m \<noteq> MessageTypeGitInfo"
    by (simp add: MessageTypeAgent_def MessageTypeGitInfo_def)
  from h have ends: "endsTurn m"
    by (simp add: endsTurn_def)
  have "ignoreTrailingGitInfo (ms @ [m] @ []) = ms @ [m]"
    using notgit by (intro ignoreTrailingGitInfo_snoc) simp_all
  then show "agentWorking (ms @ [m]) = False"
    using ends by (simp add: agentWorking_unfold)
  have "ignoreTrailingGitInfo (ms @ [m] @ gs) = ms @ [m]"
    using notgit h by (intro ignoreTrailingGitInfo_snoc) simp_all
  then show "agentWorking (ms @ [m] @ gs) = False"
    using ends by (simp add: agentWorking_unfold)
qed

theorem agentWorking_false_iff_witness:
  "agentWorking
     [\<lparr>SequenceID = 0, Type = ''agent'', EndOfTurn = Some True\<rparr>,
      \<lparr>SequenceID = 1, Type = ''gitinfo'', EndOfTurn = None\<rparr>,
      \<lparr>SequenceID = 2, Type = ''gitinfo'', EndOfTurn = None\<rparr>] = False \<and>
   agentWorking
     [\<lparr>SequenceID = 0, Type = ''agent'', EndOfTurn = Some False\<rparr>,
      \<lparr>SequenceID = 1, Type = ''gitinfo'', EndOfTurn = None\<rparr>] = True \<and>
   agentWorking
     ([\<lparr>SequenceID = 0, Type = ''user'', EndOfTurn = None\<rparr>] @
      [\<lparr>SequenceID = 1, Type = ''agent'', EndOfTurn = Some True\<rparr>] @
      [\<lparr>SequenceID = 2, Type = ''gitinfo'', EndOfTurn = None\<rparr>]) = False"
  using
    agentWorking_false_iff [of
      "[\<lparr>SequenceID = 0, Type = ''agent'', EndOfTurn = Some True\<rparr>,
        \<lparr>SequenceID = 1, Type = ''gitinfo'', EndOfTurn = None\<rparr>,
        \<lparr>SequenceID = 2, Type = ''gitinfo'', EndOfTurn = None\<rparr>]"
      "\<lparr>SequenceID = 1, Type = ''agent'', EndOfTurn = Some True\<rparr>"
      "[\<lparr>SequenceID = 2, Type = ''gitinfo'', EndOfTurn = None\<rparr>]"
      "[\<lparr>SequenceID = 0, Type = ''user'', EndOfTurn = None\<rparr>]"]
    agentWorking_false_iff [of
      "[\<lparr>SequenceID = 0, Type = ''agent'', EndOfTurn = Some False\<rparr>,
        \<lparr>SequenceID = 1, Type = ''gitinfo'', EndOfTurn = None\<rparr>]"
      "\<lparr>SequenceID = 1, Type = ''agent'', EndOfTurn = Some True\<rparr>"
      "[]" "[]"]
  by (simp add: tailEndsTurn_def ignoreTrailingGitInfo_def endsTurn_def
        MessageTypeAgent_def MessageTypeGitInfo_def MessageTypeError_def)

text \<open>
  Claim C10: on a message list with no agent entry and no error entry, \<open>agentWorking\<close>
  returns false when the list is empty or holds gitinfo entries only, and true as soon as
  the list has one entry that is not gitinfo (a lone user or tool message, say): activity
  without an agent reply is reported as working.
\<close>

theorem agentWorking_no_agent_no_error:
  assumes "\<forall>m \<in> set messages. Type m \<noteq> MessageTypeAgent \<and> Type m \<noteq> MessageTypeError"
  shows "agentWorking messages \<longleftrightarrow> (\<exists>m \<in> set messages. Type m \<noteq> MessageTypeGitInfo)"
proof (cases "ignoreTrailingGitInfo messages = []")
  case True
  obtain gs where "messages = ignoreTrailingGitInfo messages @ gs"
    and "\<forall>g \<in> set gs. Type g = MessageTypeGitInfo"
    using ignoreTrailingGitInfo_prefix by blast
  with True have "\<forall>g \<in> set messages. Type g = MessageTypeGitInfo"
    by simp
  with True show ?thesis
    by (simp add: agentWorking_unfold)
next
  case False
  define k where "k = last (ignoreTrailingGitInfo messages)"
  obtain gs where split: "messages = ignoreTrailingGitInfo messages @ gs"
    using ignoreTrailingGitInfo_prefix by blast
  from False have "k \<in> set (ignoreTrailingGitInfo messages)"
    unfolding k_def by (rule last_in_set)
  with split have kin: "k \<in> set messages"
    by (metis Un_iff set_append)
  from False have knot: "Type k \<noteq> MessageTypeGitInfo"
    unfolding k_def by (rule ignoreTrailingGitInfo_last)
  from kin assms have "\<not> endsTurn k"
    by (simp add: endsTurn_def)
  moreover from False have revk: "rev (ignoreTrailingGitInfo messages) =
      k # rev (butlast (ignoreTrailingGitInfo messages))"
    unfolding k_def by (rule rev_last_Cons)
  ultimately have "agentWorking messages"
    unfolding agentWorking_unfold revk by simp
  with kin knot show ?thesis
    by blast
qed

theorem agentWorking_no_agent_no_error_witness:
  "agentWorking [\<lparr>SequenceID = 0, Type = ''user'', EndOfTurn = None\<rparr>] \<and>
   agentWorking
     [\<lparr>SequenceID = 0, Type = ''gitinfo'', EndOfTurn = None\<rparr>,
      \<lparr>SequenceID = 1, Type = ''tool'', EndOfTurn = None\<rparr>,
      \<lparr>SequenceID = 2, Type = ''gitinfo'', EndOfTurn = None\<rparr>] \<and>
   \<not> agentWorking
     [\<lparr>SequenceID = 0, Type = ''gitinfo'', EndOfTurn = None\<rparr>,
      \<lparr>SequenceID = 1, Type = ''gitinfo'', EndOfTurn = None\<rparr>] \<and>
   \<not> agentWorking []"
  using
    agentWorking_no_agent_no_error [of "[\<lparr>SequenceID = 0, Type = ''user'', EndOfTurn = None\<rparr>]"]
    agentWorking_no_agent_no_error [of
      "[\<lparr>SequenceID = 0, Type = ''gitinfo'', EndOfTurn = None\<rparr>,
        \<lparr>SequenceID = 1, Type = ''tool'', EndOfTurn = None\<rparr>,
        \<lparr>SequenceID = 2, Type = ''gitinfo'', EndOfTurn = None\<rparr>]"]
    agentWorking_no_agent_no_error [of
      "[\<lparr>SequenceID = 0, Type = ''gitinfo'', EndOfTurn = None\<rparr>,
        \<lparr>SequenceID = 1, Type = ''gitinfo'', EndOfTurn = None\<rparr>]"]
    agentWorking_no_agent_no_error [of "[]"]
  by (simp add: MessageTypeAgent_def MessageTypeGitInfo_def MessageTypeError_def)

section \<open>The subscription bus: \<open>SubPub\<close>\<close>

subsection \<open>Channels\<close>

text \<open>
  A Go buffered channel, as far as the bus uses it: the values waiting in it (oldest
  first), its capacity and whether \<open>close\<close> was called on it. Closing a closed channel
  and sending on a closed channel panic.
\<close>

datatype panic = CloseOfClosedChannel | SendOnClosedChannel

record 'k chan =
  buf :: "'k list"
  cap :: nat
  closed :: bool

definition make_chan :: "nat \<Rightarrow> 'k chan" where
  "make_chan n = \<lparr>buf = [], cap = n, closed = False\<rparr>"

definition chan_close :: "'k chan \<Rightarrow> panic + 'k chan" where
  "chan_close c = (if closed c then Inl CloseOfClosedChannel else Inr (c\<lparr>closed := True\<rparr>))"

text \<open>
  The send of \<^verbatim>\<open>select { case ch <- message: ... default: ... }\<close>: it never waits.
  \<open>Inr (Some c')\<close> is the channel after a send that went through, \<open>Inr None\<close> says the
  \<open>default\<close> branch is taken because the buffer is full.
\<close>

definition chan_try_send :: "'k chan \<Rightarrow> 'k \<Rightarrow> panic + 'k chan option" where
  "chan_try_send c v =
     (if closed c then Inl SendOnClosedChannel
      else if length (buf c) < cap c then Inr (Some (c\<lparr>buf := buf c @ [v]\<rparr>))
      else Inr None)"

text \<open>
  The receive \<^verbatim>\<open>msg, ok := <-ch\<close>, when it is ready: a buffered value comes first (with
  \<open>ok = true\<close>, also on a closed channel); an empty closed channel yields \<open>ok = false\<close>,
  here \<open>None\<close> for the message. On an empty open channel the receive is not ready and
  the result is \<open>None\<close>.
\<close>

definition chan_try_recv :: "'k chan \<Rightarrow> ('k option \<times> 'k chan) option" where
  "chan_try_recv c =
     (case buf c of
        v # vs \<Rightarrow> Some (Some v, c\<lparr>buf := vs\<rparr>)
      | [] \<Rightarrow> if closed c then Some (None, c) else None)"

subsection \<open>Subscribers and the bus\<close>

text \<open>
  A subscriber holds the index it has seen (\<open>int64\<close> in the source; it is only compared
  and assigned, never computed with, so an \<open>int\<close> here), its channel, and its context.
  The context \<open>subCtx\<close> is done once \<open>cancel\<close> was called or the parent context ended;
  \<open>ctx_done\<close> stands for both fields \<open>ctx\<close> and \<open>cancel\<close>.

  The bus keeps pointers to its subscribers, and the closure that \<open>Subscribe\<close> returns
  keeps the channel and the context of one of them, also after the bus has dropped it.
  So the subscribers live in a store \<open>objects\<close>, addressed by natural numbers, and the
  slice \<open>sp.subscribers\<close> is a list of addresses. \<open>fresh\<close> is the next unused address.
\<close>

record 'k subscriber =
  idx :: int
  ch :: "'k chan"
  ctx_done :: bool

record 'k SubPub =
  subscribers :: "nat list"
  objects :: "nat \<Rightarrow> 'k subscriber"
  fresh :: nat

definition New :: "'k SubPub" where
  "New = \<lparr>subscribers = [],
          objects = (\<lambda>_. \<lparr>idx = 0, ch = make_chan 0, ctx_done = True\<rparr>),
          fresh = 0\<rparr>"

text \<open>
  \<open>Subscribe(ctx, idx)\<close>: a child context of \<open>ctx\<close> (done at once when \<open>ctx\<close> already
  is: \<open>parent_done\<close>), a channel of capacity 10, and the new subscriber appended to the
  slice. The result is the bus and the address of the subscriber whose channel and
  context the returned closure reads.
\<close>

definition Subscribe :: "bool \<Rightarrow> int \<Rightarrow> 'k SubPub \<Rightarrow> nat \<times> 'k SubPub" where
  "Subscribe parent_done i sp =
     (let sub = \<lparr>idx = i, ch = make_chan 10, ctx_done = parent_done\<rparr>;
          a = fresh sp
      in (a, sp\<lparr>subscribers := subscribers sp @ [a],
                objects := (objects sp)(a := sub),
                fresh := Suc a\<rparr>))"

text \<open>
  The environment ends a subscriber's context (the stream handler returns, the client
  goes away): \<open>subCtx.Done()\<close> fires from then on.
\<close>

definition cancel :: "nat \<Rightarrow> 'k SubPub \<Rightarrow> 'k SubPub" where
  "cancel a sp = sp\<lparr>objects := (objects sp)(a := (objects sp a)\<lparr>ctx_done := True\<rparr>)\<rparr>"

text \<open>
  One round of the loop body of \<open>Publish\<close> on one subscriber: the subscriber afterwards
  and whether it is appended to \<open>remaining\<close>.
  \<^verbatim>\<open>
  select {
  case <-sub.ctx.Done():
      close(sub.ch)
      continue
  default:
  }
  if sub.idx < idx {
      select {
      case sub.ch <- message:
          sub.idx = idx
          remaining = append(remaining, sub)
      default:
          close(sub.ch)
          sub.cancel()
      }
  } else {
      remaining = append(remaining, sub)
  }
  \<close>
\<close>

definition publish_sub :: "int \<Rightarrow> 'k \<Rightarrow> 'k subscriber \<Rightarrow> panic + ('k subscriber \<times> bool)" where
  "publish_sub i message sub =
     (if ctx_done sub then
        (case chan_close (ch sub) of
           Inl p \<Rightarrow> Inl p
         | Inr c \<Rightarrow> Inr (sub\<lparr>ch := c\<rparr>, False))
      else if idx sub < i then
        (case chan_try_send (ch sub) message of
           Inl p \<Rightarrow> Inl p
         | Inr (Some c) \<Rightarrow> Inr (sub\<lparr>ch := c, idx := i\<rparr>, True)
         | Inr None \<Rightarrow>
             (case chan_close (ch sub) of
                Inl p \<Rightarrow> Inl p
              | Inr c \<Rightarrow> Inr (sub\<lparr>ch := c, ctx_done := True\<rparr>, False)))
      else Inr (sub, True))"

text \<open>The loop body of \<open>Broadcast\<close>: the same without the index.\<close>

definition broadcast_sub :: "'k \<Rightarrow> 'k subscriber \<Rightarrow> panic + ('k subscriber \<times> bool)" where
  "broadcast_sub message sub =
     (if ctx_done sub then
        (case chan_close (ch sub) of
           Inl p \<Rightarrow> Inl p
         | Inr c \<Rightarrow> Inr (sub\<lparr>ch := c\<rparr>, False))
      else
        (case chan_try_send (ch sub) message of
           Inl p \<Rightarrow> Inl p
         | Inr (Some c) \<Rightarrow> Inr (sub\<lparr>ch := c\<rparr>, True)
         | Inr None \<Rightarrow>
             (case chan_close (ch sub) of
                Inl p \<Rightarrow> Inl p
              | Inr c \<Rightarrow> Inr (sub\<lparr>ch := c, ctx_done := True\<rparr>, False))))"

text \<open>
  \<^verbatim>\<open>remaining := sp.subscribers[:0]; for _, sub := range sp.subscribers { ... }\<close>
  The loop walks the slice in order, applies the body to the object each pointer refers
  to, and collects the pointers it keeps. (\<open>remaining\<close> shares the backing array of the
  slice, but it is never longer than the part already read.) A panic ends the loop.
\<close>

fun sweep :: "('k subscriber \<Rightarrow> panic + ('k subscriber \<times> bool)) \<Rightarrow> nat list \<Rightarrow>
    (nat \<Rightarrow> 'k subscriber) \<Rightarrow> nat list \<Rightarrow> panic + ((nat \<Rightarrow> 'k subscriber) \<times> nat list)" where
  "sweep body [] objs remaining = Inr (objs, remaining)"
| "sweep body (a # as) objs remaining =
     (case body (objs a) of
        Inl p \<Rightarrow> Inl p
      | Inr (sub, keep) \<Rightarrow>
          sweep body as (objs(a := sub)) (if keep then remaining @ [a] else remaining))"

definition Publish :: "int \<Rightarrow> 'k \<Rightarrow> 'k SubPub \<Rightarrow> panic + 'k SubPub" where
  "Publish i message sp =
     (case sweep (publish_sub i message) (subscribers sp) (objects sp) [] of
        Inl p \<Rightarrow> Inl p
      | Inr (objs, remaining) \<Rightarrow> Inr (sp\<lparr>subscribers := remaining, objects := objs\<rparr>))"

definition Broadcast :: "'k \<Rightarrow> 'k SubPub \<Rightarrow> panic + 'k SubPub" where
  "Broadcast message sp =
     (case sweep (broadcast_sub message) (subscribers sp) (objects sp) [] of
        Inl p \<Rightarrow> Inl p
      | Inr (objs, remaining) \<Rightarrow> Inr (sp\<lparr>subscribers := remaining, objects := objs\<rparr>))"

text \<open>
  The closure returned by \<open>Subscribe\<close>:
  \<^verbatim>\<open>
  select {
  case msg, ok := <-ch:
      if !ok { return zero, false }
      return msg, true
  case <-subCtx.Done():
      select {
      case msg, ok := <-ch:
          if ok { return msg, true }
      default:
      }
      return zero, false
  }
  \<close>
  When both cases of the outer \<open>select\<close> are ready Go takes either; \<open>pick_done\<close> is that
  choice (true: the \<open>Done\<close> case). When neither is ready the call waits: \<open>Waits\<close>.
  \<open>Msg v\<close> is the result \<open>(v, true)\<close>, \<open>Terminal\<close> the result \<open>(zero, false)\<close>.
\<close>

datatype 'k next_result = Msg 'k | Terminal | Waits

definition next_sub :: "bool \<Rightarrow> 'k subscriber \<Rightarrow> 'k next_result \<times> 'k subscriber" where
  "next_sub pick_done sub =
     (case chan_try_recv (ch sub) of
        Some (r, c) \<Rightarrow>
          if ctx_done sub \<and> pick_done then
            (case r of
               Some msg \<Rightarrow> (Msg msg, sub\<lparr>ch := c\<rparr>)
             | None \<Rightarrow> (Terminal, sub\<lparr>ch := c\<rparr>))
          else
            (case r of
               None \<Rightarrow> (Terminal, sub\<lparr>ch := c\<rparr>)
             | Some msg \<Rightarrow> (Msg msg, sub\<lparr>ch := c\<rparr>))
      | None \<Rightarrow>
          if ctx_done sub then (Terminal, sub)
          else (Waits, sub))"

definition NextFn :: "bool \<Rightarrow> nat \<Rightarrow> 'k SubPub \<Rightarrow> 'k next_result \<times> 'k SubPub" where
  "NextFn pick_done a sp =
     (case next_sub pick_done (objects sp a) of
        (r, sub) \<Rightarrow> (r, sp\<lparr>objects := (objects sp)(a := sub)\<rparr>))"

text \<open>Calling the closure once for each choice in the list, collecting the results.\<close>

fun NextFn_calls :: "bool list \<Rightarrow> nat \<Rightarrow> 'k SubPub \<Rightarrow> 'k next_result list \<times> 'k SubPub" where
  "NextFn_calls [] a sp = ([], sp)"
| "NextFn_calls (p # ps) a sp =
     (case NextFn p a sp of
        (r, sp') \<Rightarrow> (case NextFn_calls ps a sp' of (rs, sp'') \<Rightarrow> (r # rs, sp'')))"

text \<open>Publishing a sequence of indexed values, one after the other.\<close>

fun Publish_all :: "(int \<times> 'k) list \<Rightarrow> 'k SubPub \<Rightarrow> panic + 'k SubPub" where
  "Publish_all [] sp = Inr sp"
| "Publish_all ((i, v) # ivs) sp =
     (case Publish i v sp of Inl p \<Rightarrow> Inl p | Inr sp' \<Rightarrow> Publish_all ivs sp')"

text \<open>
  What holds of every bus the operations build: the slice names each subscriber once,
  only allocated ones, none of them with a closed channel (a channel is closed only as
  its subscriber leaves the slice); and every allocated subscriber's channel has
  capacity 10 and holds no more than that.
\<close>

definition bus_inv :: "'k SubPub \<Rightarrow> bool" where
  "bus_inv sp \<longleftrightarrow>
     distinct (subscribers sp) \<and>
     (\<forall>a \<in> set (subscribers sp). a < fresh sp \<and> \<not> closed (ch (objects sp a))) \<and>
     (\<forall>a. a < fresh sp \<longrightarrow>
        cap (ch (objects sp a)) = 10 \<and> length (buf (ch (objects sp a))) \<le> 10)"

subsection \<open>What one sweep of the slice does\<close>

lemma sweep_distinct:
  assumes "distinct as" and "\<forall>a \<in> set as. body (objs a) = Inr (f a, k a)"
  shows "sweep body as objs remaining =
           Inr ((\<lambda>a. if a \<in> set as then f a else objs a), remaining @ filter k as)"
  using assms
proof (induction as arbitrary: objs remaining)
  case Nil
  show ?case by simp
next
  case (Cons a as)
  from Cons.prems have here: "body (objs a) = Inr (f a, k a)"
    by simp
  from Cons.prems have rest: "\<forall>b \<in> set as. body ((objs(a := f a)) b) = Inr (f b, k b)"
    by auto
  from Cons.prems have "distinct as"
    by simp
  then have "sweep body as (objs(a := f a)) (if k a then remaining @ [a] else remaining) =
      Inr ((\<lambda>b. if b \<in> set as then f b else (objs(a := f a)) b),
           (if k a then remaining @ [a] else remaining) @ filter k as)"
    using rest by (rule Cons.IH)
  moreover have "(\<lambda>b. if b \<in> set as then f b else (objs(a := f a)) b) =
      (\<lambda>b. if b \<in> set (a # as) then f b else objs b)"
    by (auto simp: fun_eq_iff)
  ultimately show ?case
    using here by simp
qed

lemma publish_sub_open:
  assumes "\<not> closed (ch s)"
  shows "publish_sub i m s = Inr
     (if ctx_done s then (s\<lparr>ch := (ch s)\<lparr>closed := True\<rparr>\<rparr>, False)
      else if idx s < i then
        (if length (buf (ch s)) < cap (ch s)
         then (s\<lparr>ch := (ch s)\<lparr>buf := buf (ch s) @ [m]\<rparr>, idx := i\<rparr>, True)
         else (s\<lparr>ch := (ch s)\<lparr>closed := True\<rparr>, ctx_done := True\<rparr>, False))
      else (s, True))"
  using assms by (simp add: publish_sub_def chan_close_def chan_try_send_def)

lemma broadcast_sub_open:
  assumes "\<not> closed (ch s)"
  shows "broadcast_sub m s = Inr
     (if ctx_done s then (s\<lparr>ch := (ch s)\<lparr>closed := True\<rparr>\<rparr>, False)
      else if length (buf (ch s)) < cap (ch s)
        then (s\<lparr>ch := (ch s)\<lparr>buf := buf (ch s) @ [m]\<rparr>\<rparr>, True)
        else (s\<lparr>ch := (ch s)\<lparr>closed := True\<rparr>, ctx_done := True\<rparr>, False))"
  using assms by (simp add: broadcast_sub_def chan_close_def chan_try_send_def)

lemma sweep_effect:
  assumes dist: "distinct (subscribers sp)"
    and ok: "\<forall>a \<in> set (subscribers sp). \<exists>r. body (objects sp a) = Inr r"
  shows "\<exists>objs remaining.
           sweep body (subscribers sp) (objects sp) [] = Inr (objs, remaining) \<and>
           distinct remaining \<and>
           set remaining \<subseteq> set (subscribers sp) \<and>
           (\<forall>a \<in> set (subscribers sp). body (objects sp a) = Inr (objs a, a \<in> set remaining)) \<and>
           (\<forall>a. a \<notin> set (subscribers sp) \<longrightarrow> objs a = objects sp a)"
proof -
  define f where "f a = fst (projr (body (objects sp a)))" for a
  define k where "k a = snd (projr (body (objects sp a)))" for a
  have each: "\<forall>a \<in> set (subscribers sp). body (objects sp a) = Inr (f a, k a)"
    using ok by (auto simp: f_def k_def)
  have run: "sweep body (subscribers sp) (objects sp) [] =
      Inr ((\<lambda>a. if a \<in> set (subscribers sp) then f a else objects sp a),
           [] @ filter k (subscribers sp))"
    using dist each by (rule sweep_distinct)
  show ?thesis
  proof (intro exI conjI)
    show "sweep body (subscribers sp) (objects sp) [] =
      Inr ((\<lambda>a. if a \<in> set (subscribers sp) then f a else objects sp a),
           filter k (subscribers sp))"
      using run by simp
    show "distinct (filter k (subscribers sp))"
      using dist by simp
    show "set (filter k (subscribers sp)) \<subseteq> set (subscribers sp)"
      by auto
    show "\<forall>a \<in> set (subscribers sp). body (objects sp a) =
        Inr (if a \<in> set (subscribers sp) then f a else objects sp a,
             a \<in> set (filter k (subscribers sp)))"
      using each by simp
    show "\<forall>a. a \<notin> set (subscribers sp) \<longrightarrow>
        (if a \<in> set (subscribers sp) then f a else objects sp a) = objects sp a"
      by simp
  qed
qed

lemma Publish_effect:
  assumes "bus_inv sp"
  shows "\<exists>sp'. Publish i m sp = Inr sp' \<and> fresh sp' = fresh sp \<and>
           distinct (subscribers sp') \<and> set (subscribers sp') \<subseteq> set (subscribers sp) \<and>
           (\<forall>a \<in> set (subscribers sp).
              publish_sub i m (objects sp a) = Inr (objects sp' a, a \<in> set (subscribers sp'))) \<and>
           (\<forall>a. a \<notin> set (subscribers sp) \<longrightarrow> objects sp' a = objects sp a)"
proof -
  from assms have dist: "distinct (subscribers sp)"
    and opened: "\<forall>a \<in> set (subscribers sp). \<not> closed (ch (objects sp a))"
    by (simp_all add: bus_inv_def)
  have "\<forall>a \<in> set (subscribers sp). \<exists>r. publish_sub i m (objects sp a) = Inr r"
  proof
    fix a assume "a \<in> set (subscribers sp)"
    with opened have "\<not> closed (ch (objects sp a))"
      by simp
    then show "\<exists>r. publish_sub i m (objects sp a) = Inr r"
      by (intro exI) (rule publish_sub_open)
  qed
  with dist obtain objs remaining where
    run: "sweep (publish_sub i m) (subscribers sp) (objects sp) [] = Inr (objs, remaining)"
    and rest: "distinct remaining" "set remaining \<subseteq> set (subscribers sp)"
      "\<forall>a \<in> set (subscribers sp).
         publish_sub i m (objects sp a) = Inr (objs a, a \<in> set remaining)"
      "\<forall>a. a \<notin> set (subscribers sp) \<longrightarrow> objs a = objects sp a"
    using sweep_effect [of sp "publish_sub i m"] by blast
  from run have "Publish i m sp = Inr (sp\<lparr>subscribers := remaining, objects := objs\<rparr>)"
    by (simp add: Publish_def)
  with rest show ?thesis
    by simp
qed

lemma Broadcast_effect:
  assumes "bus_inv sp"
  shows "\<exists>sp'. Broadcast m sp = Inr sp' \<and> fresh sp' = fresh sp \<and>
           distinct (subscribers sp') \<and> set (subscribers sp') \<subseteq> set (subscribers sp) \<and>
           (\<forall>a \<in> set (subscribers sp).
              broadcast_sub m (objects sp a) = Inr (objects sp' a, a \<in> set (subscribers sp'))) \<and>
           (\<forall>a. a \<notin> set (subscribers sp) \<longrightarrow> objects sp' a = objects sp a)"
proof -
  from assms have dist: "distinct (subscribers sp)"
    and opened: "\<forall>a \<in> set (subscribers sp). \<not> closed (ch (objects sp a))"
    by (simp_all add: bus_inv_def)
  have "\<forall>a \<in> set (subscribers sp). \<exists>r. broadcast_sub m (objects sp a) = Inr r"
  proof
    fix a assume "a \<in> set (subscribers sp)"
    with opened have "\<not> closed (ch (objects sp a))"
      by simp
    then show "\<exists>r. broadcast_sub m (objects sp a) = Inr r"
      by (intro exI) (rule broadcast_sub_open)
  qed
  with dist obtain objs remaining where
    run: "sweep (broadcast_sub m) (subscribers sp) (objects sp) [] = Inr (objs, remaining)"
    and rest: "distinct remaining" "set remaining \<subseteq> set (subscribers sp)"
      "\<forall>a \<in> set (subscribers sp).
         broadcast_sub m (objects sp a) = Inr (objs a, a \<in> set remaining)"
      "\<forall>a. a \<notin> set (subscribers sp) \<longrightarrow> objs a = objects sp a"
    using sweep_effect [of sp "broadcast_sub m"] by blast
  from run have "Broadcast m sp = Inr (sp\<lparr>subscribers := remaining, objects := objs\<rparr>)"
    by (simp add: Broadcast_def)
  with rest show ?thesis
    by simp
qed

text \<open>
  Both loop bodies keep a subscriber only with an open channel, and never let a
  channel of capacity 10 hold more than 10 values.
\<close>

lemma publish_sub_keeps:
  assumes "\<not> closed (ch s)" and "publish_sub i m s = Inr (s', keep)"
  shows "(keep \<longrightarrow> \<not> closed (ch s')) \<and> cap (ch s') = cap (ch s) \<and>
         (length (buf (ch s)) \<le> cap (ch s) \<longrightarrow> length (buf (ch s')) \<le> cap (ch s))"
  using assms by (auto simp: publish_sub_open split: if_splits)

lemma broadcast_sub_keeps:
  assumes "\<not> closed (ch s)" and "broadcast_sub m s = Inr (s', keep)"
  shows "(keep \<longrightarrow> \<not> closed (ch s')) \<and> cap (ch s') = cap (ch s) \<and>
         (length (buf (ch s)) \<le> cap (ch s) \<longrightarrow> length (buf (ch s')) \<le> cap (ch s))"
  using assms by (auto simp: broadcast_sub_open split: if_splits)

lemma bus_inv_sweep:
  assumes inv: "bus_inv sp"
    and fresh: "fresh sp' = fresh sp"
    and dist: "distinct (subscribers sp')"
    and sub: "set (subscribers sp') \<subseteq> set (subscribers sp)"
    and each: "\<forall>a \<in> set (subscribers sp).
        body (objects sp a) = Inr (objects sp' a, a \<in> set (subscribers sp'))"
    and frame: "\<forall>a. a \<notin> set (subscribers sp) \<longrightarrow> objects sp' a = objects sp a"
    and keeps: "\<And>s s' keep. \<not> closed (ch s) \<Longrightarrow> body s = Inr (s', keep) \<Longrightarrow>
        (keep \<longrightarrow> \<not> closed (ch s')) \<and> cap (ch s') = cap (ch s) \<and>
        (length (buf (ch s)) \<le> cap (ch s) \<longrightarrow> length (buf (ch s')) \<le> cap (ch s))"
  shows "bus_inv sp'"
proof -
  from inv have opened: "\<And>a. a \<in> set (subscribers sp) \<Longrightarrow>
      a < fresh sp \<and> \<not> closed (ch (objects sp a))"
    and bound: "\<And>a. a < fresh sp \<Longrightarrow>
      cap (ch (objects sp a)) = 10 \<and> length (buf (ch (objects sp a))) \<le> 10"
    by (simp_all add: bus_inv_def)
  have step: "(a \<in> set (subscribers sp') \<longrightarrow> \<not> closed (ch (objects sp' a))) \<and>
      cap (ch (objects sp' a)) = 10 \<and> length (buf (ch (objects sp' a))) \<le> 10"
    if mem: "a \<in> set (subscribers sp)" for a
  proof -
    from mem have o: "\<not> closed (ch (objects sp a))" and lt: "a < fresh sp"
      using opened by simp_all
    from mem each have b: "body (objects sp a) = Inr (objects sp' a, a \<in> set (subscribers sp'))"
      by simp
    from keeps [OF o b] bound [OF lt] show ?thesis
      by simp
  qed
  show ?thesis
    unfolding bus_inv_def
  proof (intro conjI ballI allI impI)
    show "distinct (subscribers sp')"
      by (rule dist)
  next
    fix a assume "a \<in> set (subscribers sp')"
    with sub have "a \<in> set (subscribers sp)"
      by blast
    with opened fresh show "a < fresh sp'"
      by simp
  next
    fix a assume m': "a \<in> set (subscribers sp')"
    with sub have "a \<in> set (subscribers sp)"
      by blast
    from step [OF this] m' show "\<not> closed (ch (objects sp' a))"
      by simp
  next
    fix a assume lt: "a < fresh sp'"
    show "cap (ch (objects sp' a)) = 10"
    proof (cases "a \<in> set (subscribers sp)")
      case True
      from step [OF this] show ?thesis by simp
    next
      case False
      with frame bound lt fresh show ?thesis by simp
    qed
    show "length (buf (ch (objects sp' a))) \<le> 10"
    proof (cases "a \<in> set (subscribers sp)")
      case True
      from step [OF this] show ?thesis by simp
    next
      case False
      with frame bound lt fresh show ?thesis by simp
    qed
  qed
qed

lemma bus_inv_New: "bus_inv New"
  by (simp add: bus_inv_def New_def)

lemma bus_inv_Subscribe:
  assumes "bus_inv sp"
  shows "bus_inv (snd (Subscribe parent_done i sp))"
  using assms
  by (auto simp: bus_inv_def Subscribe_def Let_def make_chan_def less_Suc_eq)

lemma bus_inv_cancel:
  assumes "bus_inv sp"
  shows "bus_inv (cancel a sp)"
  using assms by (simp add: bus_inv_def cancel_def)

lemma bus_inv_Publish:
  assumes "bus_inv sp" and "Publish i m sp = Inr sp'"
  shows "bus_inv sp'"
proof -
  from Publish_effect [OF assms(1), of i m] assms(2)
  have "fresh sp' = fresh sp" "distinct (subscribers sp')"
    "set (subscribers sp') \<subseteq> set (subscribers sp)"
    "\<forall>a \<in> set (subscribers sp).
       publish_sub i m (objects sp a) = Inr (objects sp' a, a \<in> set (subscribers sp'))"
    "\<forall>a. a \<notin> set (subscribers sp) \<longrightarrow> objects sp' a = objects sp a"
    by auto
  then show ?thesis
    using publish_sub_keeps by (intro bus_inv_sweep [OF assms(1)]) blast+
qed

lemma bus_inv_Broadcast:
  assumes "bus_inv sp" and "Broadcast m sp = Inr sp'"
  shows "bus_inv sp'"
proof -
  from Broadcast_effect [OF assms(1), of m] assms(2)
  have "fresh sp' = fresh sp" "distinct (subscribers sp')"
    "set (subscribers sp') \<subseteq> set (subscribers sp)"
    "\<forall>a \<in> set (subscribers sp).
       broadcast_sub m (objects sp a) = Inr (objects sp' a, a \<in> set (subscribers sp'))"
    "\<forall>a. a \<notin> set (subscribers sp) \<longrightarrow> objects sp' a = objects sp a"
    by auto
  then show ?thesis
    using broadcast_sub_keeps by (intro bus_inv_sweep [OF assms(1)]) blast+
qed

lemma Publish_cases:
  assumes inv: "bus_inv sp" and run: "Publish i m sp = Inr sp'"
    and mem: "a \<in> set (subscribers sp)"
  shows "(ctx_done (objects sp a) \<longrightarrow>
            a \<notin> set (subscribers sp') \<and>
            objects sp' a = (objects sp a)\<lparr>ch := (ch (objects sp a))\<lparr>closed := True\<rparr>\<rparr>) \<and>
         (\<not> ctx_done (objects sp a) \<and> idx (objects sp a) < i \<and>
            length (buf (ch (objects sp a))) < 10 \<longrightarrow>
            a \<in> set (subscribers sp') \<and>
            objects sp' a = (objects sp a)
              \<lparr>ch := (ch (objects sp a))\<lparr>buf := buf (ch (objects sp a)) @ [m]\<rparr>, idx := i\<rparr>) \<and>
         (\<not> ctx_done (objects sp a) \<and> idx (objects sp a) < i \<and>
            \<not> length (buf (ch (objects sp a))) < 10 \<longrightarrow>
            a \<notin> set (subscribers sp') \<and>
            objects sp' a = (objects sp a)
              \<lparr>ch := (ch (objects sp a))\<lparr>closed := True\<rparr>, ctx_done := True\<rparr>) \<and>
         (\<not> ctx_done (objects sp a) \<and> \<not> idx (objects sp a) < i \<longrightarrow>
            a \<in> set (subscribers sp') \<and> objects sp' a = objects sp a)"
proof -
  define s where "s = objects sp a"
  from inv mem have o: "\<not> closed (ch s)" and c: "cap (ch s) = 10"
    by (simp_all add: bus_inv_def s_def)
  from Publish_effect [OF inv, of i m] run mem
  have eff: "publish_sub i m s = Inr (objects sp' a, a \<in> set (subscribers sp'))"
    by (auto simp: s_def)
  have "(objects sp' a, a \<in> set (subscribers sp')) =
     (if ctx_done s then (s\<lparr>ch := (ch s)\<lparr>closed := True\<rparr>\<rparr>, False)
      else if idx s < i then
        (if length (buf (ch s)) < 10
         then (s\<lparr>ch := (ch s)\<lparr>buf := buf (ch s) @ [m]\<rparr>, idx := i\<rparr>, True)
         else (s\<lparr>ch := (ch s)\<lparr>closed := True\<rparr>, ctx_done := True\<rparr>, False))
      else (s, True))"
    using publish_sub_open [OF o, of i m] eff unfolding c by (simp only: sum.inject)
  then show ?thesis
    unfolding s_def [symmetric] by (simp split: if_splits)
qed

lemma Broadcast_cases:
  assumes inv: "bus_inv sp" and run: "Broadcast m sp = Inr sp'"
    and mem: "a \<in> set (subscribers sp)"
  shows "(ctx_done (objects sp a) \<longrightarrow>
            a \<notin> set (subscribers sp') \<and>
            objects sp' a = (objects sp a)\<lparr>ch := (ch (objects sp a))\<lparr>closed := True\<rparr>\<rparr>) \<and>
         (\<not> ctx_done (objects sp a) \<and> length (buf (ch (objects sp a))) < 10 \<longrightarrow>
            a \<in> set (subscribers sp') \<and>
            objects sp' a = (objects sp a)
              \<lparr>ch := (ch (objects sp a))\<lparr>buf := buf (ch (objects sp a)) @ [m]\<rparr>\<rparr>) \<and>
         (\<not> ctx_done (objects sp a) \<and> \<not> length (buf (ch (objects sp a))) < 10 \<longrightarrow>
            a \<notin> set (subscribers sp') \<and>
            objects sp' a = (objects sp a)
              \<lparr>ch := (ch (objects sp a))\<lparr>closed := True\<rparr>, ctx_done := True\<rparr>)"
proof -
  define s where "s = objects sp a"
  from inv mem have o: "\<not> closed (ch s)" and c: "cap (ch s) = 10"
    by (simp_all add: bus_inv_def s_def)
  from Broadcast_effect [OF inv, of m] run mem
  have eff: "broadcast_sub m s = Inr (objects sp' a, a \<in> set (subscribers sp'))"
    by (auto simp: s_def)
  have "(objects sp' a, a \<in> set (subscribers sp')) =
     (if ctx_done s then (s\<lparr>ch := (ch s)\<lparr>closed := True\<rparr>\<rparr>, False)
      else if length (buf (ch s)) < 10
        then (s\<lparr>ch := (ch s)\<lparr>buf := buf (ch s) @ [m]\<rparr>\<rparr>, True)
        else (s\<lparr>ch := (ch s)\<lparr>closed := True\<rparr>, ctx_done := True\<rparr>, False))"
    using broadcast_sub_open [OF o, of m] eff unfolding c by (simp only: sum.inject)
  then show ?thesis
    unfolding s_def [symmetric] by (simp split: if_splits)
qed

lemma Publish_frame:
  assumes inv: "bus_inv sp" and run: "Publish i m sp = Inr sp'"
    and out: "a \<notin> set (subscribers sp)"
  shows "a \<notin> set (subscribers sp') \<and> objects sp' a = objects sp a"
  using Publish_effect [OF inv, of i m] run out by auto

lemma Broadcast_frame:
  assumes inv: "bus_inv sp" and run: "Broadcast m sp = Inr sp'"
    and out: "a \<notin> set (subscribers sp)"
  shows "a \<notin> set (subscribers sp') \<and> objects sp' a = objects sp a"
  using Broadcast_effect [OF inv, of m] run out by auto

lemma Publish_total:
  assumes "bus_inv sp"
  shows "\<exists>sp'. Publish i m sp = Inr sp' \<and> bus_inv sp'"
  using Publish_effect [OF assms, of i m] bus_inv_Publish [OF assms] by blast

lemma Broadcast_total:
  assumes "bus_inv sp"
  shows "\<exists>sp'. Broadcast m sp = Inr sp' \<and> bus_inv sp'"
  using Broadcast_effect [OF assms, of m] bus_inv_Broadcast [OF assms] by blast

subsection \<open>The closure of a cancelled subscriber\<close>

lemma next_sub_cancelled:
  assumes "ctx_done s"
  shows "next_sub pick s =
     (case buf (ch s) of
        [] \<Rightarrow> (Terminal, s)
      | v # vs \<Rightarrow> (Msg v, s\<lparr>ch := (ch s)\<lparr>buf := vs\<rparr>\<rparr>))"
  using assms by (simp add: next_sub_def chan_try_recv_def split: list.split)

lemma NextFn_cancelled_Nil:
  assumes "ctx_done (objects sp a)" and "buf (ch (objects sp a)) = []"
  shows "NextFn pick a sp = (Terminal, sp)"
  using assms by (simp add: NextFn_def next_sub_cancelled)

lemma NextFn_cancelled_Cons:
  assumes "ctx_done (objects sp a)" and "buf (ch (objects sp a)) = v # vs"
  shows "NextFn pick a sp =
     (Msg v, sp\<lparr>objects := (objects sp)
        (a := (objects sp a)\<lparr>ch := (ch (objects sp a))\<lparr>buf := vs\<rparr>\<rparr>)\<rparr>)"
  using assms by (simp add: NextFn_def next_sub_cancelled)

lemma fst_NextFn_calls_Cons:
  "fst (NextFn_calls (p # ps) a sp) =
     fst (NextFn p a sp) # fst (NextFn_calls ps a (snd (NextFn p a sp)))"
  by (simp split: prod.split)

lemma NextFn_calls_drain:
  assumes "ctx_done (objects sp a)" and "buf (ch (objects sp a)) = vs"
    and "length picks = length vs + n"
  shows "fst (NextFn_calls picks a sp) = map Msg vs @ replicate n Terminal"
  using assms
proof (induction picks arbitrary: sp vs n)
  case Nil
  then show ?case by simp
next
  case (Cons p ps)
  show ?case
  proof (cases vs)
    case Nil
    with Cons.prems obtain n' where n: "n = Suc n'" and len: "length ps = length vs + n'"
      by (cases n) simp_all
    from Cons.prems Nil have step: "NextFn p a sp = (Terminal, sp)"
      by (simp add: NextFn_cancelled_Nil)
    from Cons.IH [OF Cons.prems(1) Cons.prems(2) len]
    show ?thesis
      using step n Nil by (simp add: fst_NextFn_calls_Cons del: NextFn_calls.simps)
  next
    case (Cons v vs')
    let ?sp' = "sp\<lparr>objects := (objects sp)
        (a := (objects sp a)\<lparr>ch := (ch (objects sp a))\<lparr>buf := vs'\<rparr>\<rparr>)\<rparr>"
    from Cons.prems Cons have step: "NextFn p a sp = (Msg v, ?sp')"
      by (simp add: NextFn_cancelled_Cons)
    have d: "ctx_done (objects ?sp' a)" and b: "buf (ch (objects ?sp' a)) = vs'"
      using Cons.prems by simp_all
    from Cons.prems Cons have len: "length ps = length vs' + n"
      by simp
    from Cons.IH [OF d b len]
    show ?thesis
      using step Cons by (simp add: fst_NextFn_calls_Cons del: NextFn_calls.simps)
  qed
qed

lemma bus_inv_NextFn:
  assumes "bus_inv sp"
  shows "bus_inv (snd (NextFn pick a sp))"
proof -
  obtain r s where ns: "next_sub pick (objects sp a) = (r, s)"
    by (cases "next_sub pick (objects sp a)")
  then have same: "closed (ch s) = closed (ch (objects sp a))"
    "cap (ch s) = cap (ch (objects sp a))"
    "length (buf (ch s)) \<le> length (buf (ch (objects sp a)))"
    by (auto simp: next_sub_def chan_try_recv_def split: list.splits if_splits option.splits)
  have "snd (NextFn pick a sp) = sp\<lparr>objects := (objects sp)(a := s)\<rparr>"
    using ns by (simp add: NextFn_def)
  moreover have "bus_inv (sp\<lparr>objects := (objects sp)(a := s)\<rparr>)"
    using assms same by (auto simp: bus_inv_def)
  ultimately show ?thesis
    by simp
qed

subsection \<open>Delivery by \<open>Publish\<close>\<close>

text \<open>
  Claim C1, as stated, has every subscriber with \<open>since_index \<ge> index\<close> retained. The
  loop of \<open>Publish\<close> first looks at the subscriber's context and drops a cancelled
  subscriber whatever its index: one subscriber joined at index 5 whose context has ended
  is no longer in the slice after \<open>Publish(3, 7)\<close>.
\<close>

theorem Publish_cancelled_counterexample:
  "subscribers (cancel 0 (snd (Subscribe False 5 (New :: nat SubPub)))) = [0] \<and>
   (3::int) \<le> idx (objects (cancel 0 (snd (Subscribe False 5 (New :: nat SubPub)))) 0) \<and>
   map_sum id (\<lambda>sp'. 0 \<in> set (subscribers sp'))
     (Publish 3 (7::nat) (cancel 0 (snd (Subscribe False 5 New)))) = Inr False"
  by (simp add: Subscribe_def New_def Publish_def publish_sub_def chan_try_send_def
        chan_close_def make_chan_def cancel_def)

text \<open>
  Claim C1, amended: for every bus the operations can build (\<open>bus_inv\<close>, which holds
  of \<open>New\<close> and is kept by every operation) and every call \<open>Publish(index, value)\<close>,
  the value is
  delivered exactly once (appended to the mailbox) to each live subscriber whose
  \<open>since_index < index\<close> and whose mailbox has room, that subscriber stays subscribed and
  its \<open>since_index\<close> becomes \<open>index\<close>; every live (not cancelled) subscriber with
  \<open>since_index \<ge> index\<close> is retained unchanged; and a \<open>Publish\<close> repeated at once with
  the same index puts nothing into the mailbox of any subscriber whose \<open>since_index\<close>
  already equals \<open>index\<close>.
\<close>

theorem Publish_delivers:
  assumes "bus_inv sp"
  shows "\<exists>sp'. Publish i v sp = Inr sp' \<and>
     (\<forall>a \<in> set (subscribers sp).
        (\<not> ctx_done (objects sp a) \<and> idx (objects sp a) < i \<and>
           length (buf (ch (objects sp a))) < 10 \<longrightarrow>
           a \<in> set (subscribers sp') \<and>
           buf (ch (objects sp' a)) = buf (ch (objects sp a)) @ [v] \<and>
           idx (objects sp' a) = i) \<and>
        (\<not> ctx_done (objects sp a) \<and> i \<le> idx (objects sp a) \<longrightarrow>
           a \<in> set (subscribers sp') \<and> objects sp' a = objects sp a)) \<and>
     (\<forall>v'. \<exists>sp''. Publish i v' sp' = Inr sp'' \<and>
        (\<forall>a. idx (objects sp' a) = i \<longrightarrow>
           buf (ch (objects sp'' a)) = buf (ch (objects sp' a)) \<and>
           idx (objects sp'' a) = i))"
proof -
  obtain sp' where run: "Publish i v sp = Inr sp'" and inv': "bus_inv sp'"
    using Publish_total [OF assms] by blast
  have first: "\<forall>a \<in> set (subscribers sp).
        (\<not> ctx_done (objects sp a) \<and> idx (objects sp a) < i \<and>
           length (buf (ch (objects sp a))) < 10 \<longrightarrow>
           a \<in> set (subscribers sp') \<and>
           buf (ch (objects sp' a)) = buf (ch (objects sp a)) @ [v] \<and>
           idx (objects sp' a) = i) \<and>
        (\<not> ctx_done (objects sp a) \<and> i \<le> idx (objects sp a) \<longrightarrow>
           a \<in> set (subscribers sp') \<and> objects sp' a = objects sp a)"
  proof
    fix a assume mem: "a \<in> set (subscribers sp)"
    from Publish_cases [OF assms run mem]
    show "(\<not> ctx_done (objects sp a) \<and> idx (objects sp a) < i \<and>
           length (buf (ch (objects sp a))) < 10 \<longrightarrow>
           a \<in> set (subscribers sp') \<and>
           buf (ch (objects sp' a)) = buf (ch (objects sp a)) @ [v] \<and>
           idx (objects sp' a) = i) \<and>
        (\<not> ctx_done (objects sp a) \<and> i \<le> idx (objects sp a) \<longrightarrow>
           a \<in> set (subscribers sp') \<and> objects sp' a = objects sp a)"
      by (simp add: not_less)
  qed
  have again: "\<exists>sp''. Publish i v' sp' = Inr sp'' \<and>
        (\<forall>a. idx (objects sp' a) = i \<longrightarrow>
           buf (ch (objects sp'' a)) = buf (ch (objects sp' a)) \<and>
           idx (objects sp'' a) = i)" for v'
  proof -
    obtain sp'' where run': "Publish i v' sp' = Inr sp''"
      using Publish_total [OF inv'] by blast
    have "buf (ch (objects sp'' a)) = buf (ch (objects sp' a)) \<and> idx (objects sp'' a) = i"
      if at: "idx (objects sp' a) = i" for a
    proof (cases "a \<in> set (subscribers sp')")
      case True
      from Publish_cases [OF inv' run' True] at show ?thesis
        by (cases "ctx_done (objects sp' a)") simp_all
    next
      case False
      from Publish_frame [OF inv' run' False] at show ?thesis
        by simp
    qed
    with run' show ?thesis
      by blast
  qed
  from run first again show ?thesis
    by blast
qed

theorem Publish_delivers_witness:
  "bus_inv (snd (Subscribe False 7 (snd (Subscribe False 2 (New :: nat SubPub))))) \<and>
   map_sum id
     (\<lambda>sp'. (subscribers sp', idx (objects sp' 0), buf (ch (objects sp' 0)),
              idx (objects sp' 1), buf (ch (objects sp' 1))))
     (Publish 5 (42::nat) (snd (Subscribe False 7 (snd (Subscribe False 2 New))))) =
     Inr ([0, 1], 5, [42], 7, []) \<and>
   (\<exists>sp'. Publish 5 (42::nat) (snd (Subscribe False 7 (snd (Subscribe False 2 New)))) = Inr sp' \<and>
      (\<forall>v'. \<exists>sp''. Publish 5 v' sp' = Inr sp'' \<and>
         buf (ch (objects sp'' 0)) = [42] \<and> buf (ch (objects sp'' 1)) = []))"
proof -
  let ?sp = "snd (Subscribe False 7 (snd (Subscribe False 2 (New :: nat SubPub))))"
  have inv: "bus_inv ?sp"
    by (intro bus_inv_Subscribe bus_inv_New)
  have subs: "subscribers ?sp = [0, 1]"
    and o0: "objects ?sp 0 = \<lparr>idx = 2, ch = make_chan 10, ctx_done = False\<rparr>"
    and o1: "objects ?sp 1 = \<lparr>idx = 7, ch = make_chan 10, ctx_done = False\<rparr>"
    by (simp_all add: Subscribe_def New_def)
  from Publish_delivers [OF inv, of 5 42] obtain sp' where
    run: "Publish 5 42 ?sp = Inr sp'"
    and first: "\<forall>a \<in> set (subscribers ?sp).
        (\<not> ctx_done (objects ?sp a) \<and> idx (objects ?sp a) < 5 \<and>
           length (buf (ch (objects ?sp a))) < 10 \<longrightarrow>
           a \<in> set (subscribers sp') \<and>
           buf (ch (objects sp' a)) = buf (ch (objects ?sp a)) @ [42] \<and>
           idx (objects sp' a) = 5) \<and>
        (\<not> ctx_done (objects ?sp a) \<and> 5 \<le> idx (objects ?sp a) \<longrightarrow>
           a \<in> set (subscribers sp') \<and> objects sp' a = objects ?sp a)"
    and again: "\<forall>v'. \<exists>sp''. Publish 5 v' sp' = Inr sp'' \<and>
        (\<forall>a. idx (objects sp' a) = 5 \<longrightarrow>
           buf (ch (objects sp'' a)) = buf (ch (objects sp' a)) \<and>
           idx (objects sp'' a) = 5)"
    by blast
  from first subs o0 have b0: "buf (ch (objects sp' 0)) = [42]" and i0: "idx (objects sp' 0) = 5"
    by (simp_all add: make_chan_def)
  from first subs o1 have s1: "objects sp' 1 = objects ?sp 1"
    by (simp add: make_chan_def)
  have eval: "map_sum id
     (\<lambda>sp'. (subscribers sp', idx (objects sp' 0), buf (ch (objects sp' 0)),
              idx (objects sp' 1), buf (ch (objects sp' 1))))
     (Publish 5 (42::nat) ?sp) = Inr ([0, 1], 5, [42], 7, [])"
    by (simp add: Subscribe_def New_def Publish_def publish_sub_def chan_try_send_def
        chan_close_def make_chan_def)
  have rep: "\<exists>sp''. Publish 5 v' sp' = Inr sp'' \<and>
         buf (ch (objects sp'' 0)) = [42] \<and> buf (ch (objects sp'' 1)) = []" for v'
  proof -
    from again obtain sp'' where r2: "Publish 5 v' sp' = Inr sp''"
      and keep: "\<forall>a. idx (objects sp' a) = 5 \<longrightarrow>
           buf (ch (objects sp'' a)) = buf (ch (objects sp' a)) \<and>
           idx (objects sp'' a) = 5"
      by blast
    from keep i0 b0 have "buf (ch (objects sp'' 0)) = [42]"
      by simp
    moreover have "buf (ch (objects sp'' 1)) = []"
    proof -
      have inv': "bus_inv sp'"
        using bus_inv_Publish [OF inv run] .
      show ?thesis
      proof (cases "1 \<in> set (subscribers sp')")
        case True
        from Publish_cases [OF inv' r2 True] s1 o1 show ?thesis
          by (simp add: make_chan_def)
      next
        case False
        from Publish_frame [OF inv' r2 False] s1 o1 show ?thesis
          by (simp add: make_chan_def)
      qed
    qed
    ultimately show ?thesis
      using r2 by blast
  qed
  from inv eval run rep show ?thesis
    by blast
qed

subsection \<open>Subscribers that fall behind\<close>

lemma Publish_behind:
  assumes inv: "bus_inv sp" and run: "Publish i v sp = Inr sp'"
  shows "\<forall>a \<in> set (subscribers sp).
        (\<not> ctx_done (objects sp a) \<and> idx (objects sp a) < i \<and>
           length (buf (ch (objects sp a))) = 10 \<longrightarrow>
           a \<notin> set (subscribers sp') \<and> closed (ch (objects sp' a)) \<and>
           ctx_done (objects sp' a) \<and> buf (ch (objects sp' a)) = buf (ch (objects sp a))) \<and>
        (\<not> ctx_done (objects sp a) \<and> idx (objects sp a) < i \<and>
           length (buf (ch (objects sp a))) < 10 \<longrightarrow>
           a \<in> set (subscribers sp') \<and>
           buf (ch (objects sp' a)) = buf (ch (objects sp a)) @ [v])"
proof
  fix a assume mem: "a \<in> set (subscribers sp)"
  from Publish_cases [OF inv run mem]
  show "(\<not> ctx_done (objects sp a) \<and> idx (objects sp a) < i \<and>
           length (buf (ch (objects sp a))) = 10 \<longrightarrow>
           a \<notin> set (subscribers sp') \<and> closed (ch (objects sp' a)) \<and>
           ctx_done (objects sp' a) \<and> buf (ch (objects sp' a)) = buf (ch (objects sp a))) \<and>
        (\<not> ctx_done (objects sp a) \<and> idx (objects sp a) < i \<and>
           length (buf (ch (objects sp a))) < 10 \<longrightarrow>
           a \<in> set (subscribers sp') \<and>
           buf (ch (objects sp' a)) = buf (ch (objects sp a)) @ [v])"
    by simp
qed

lemma Broadcast_behind:
  assumes inv: "bus_inv sp" and run: "Broadcast v sp = Inr sp'"
  shows "\<forall>a \<in> set (subscribers sp).
        (\<not> ctx_done (objects sp a) \<and> length (buf (ch (objects sp a))) = 10 \<longrightarrow>
           a \<notin> set (subscribers sp') \<and> closed (ch (objects sp' a)) \<and>
           ctx_done (objects sp' a) \<and> buf (ch (objects sp' a)) = buf (ch (objects sp a))) \<and>
        (\<not> ctx_done (objects sp a) \<and> length (buf (ch (objects sp a))) < 10 \<longrightarrow>
           a \<in> set (subscribers sp') \<and>
           buf (ch (objects sp' a)) = buf (ch (objects sp a)) @ [v] \<and>
           idx (objects sp' a) = idx (objects sp a))"
proof
  fix a assume mem: "a \<in> set (subscribers sp)"
  from Broadcast_cases [OF inv run mem]
  show "(\<not> ctx_done (objects sp a) \<and> length (buf (ch (objects sp a))) = 10 \<longrightarrow>
           a \<notin> set (subscribers sp') \<and> closed (ch (objects sp' a)) \<and>
           ctx_done (objects sp' a) \<and> buf (ch (objects sp' a)) = buf (ch (objects sp a))) \<and>
        (\<not> ctx_done (objects sp a) \<and> length (buf (ch (objects sp a))) < 10 \<longrightarrow>
           a \<in> set (subscribers sp') \<and>
           buf (ch (objects sp' a)) = buf (ch (objects sp a)) @ [v] \<and>
           idx (objects sp' a) = idx (objects sp a))"
    by simp
qed

lemma behind_eleventh_publish:
  "map_sum id
     (\<lambda>sp'. (subscribers sp', buf (ch (objects sp' 0)), closed (ch (objects sp' 0)),
              ctx_done (objects sp' 0)))
     (Publish_all (map (\<lambda>i. (i, i)) [0..9]) (snd (Subscribe False (- 1) New))) =
     Inr ([0], [0, 1, 2, 3, 4, 5, 6, 7, 8, 9], False, False) \<and>
   map_sum id
     (\<lambda>sp'. (subscribers sp', buf (ch (objects sp' 0)), closed (ch (objects sp' 0)),
              ctx_done (objects sp' 0)))
     (Publish_all (map (\<lambda>i. (i, i)) [0..10]) (snd (Subscribe False (- 1) New))) =
     Inr ([], [0, 1, 2, 3, 4, 5, 6, 7, 8, 9], True, True)"
  by code_simp

text \<open>
  Claim C2: a mailbox never holds more than 10 values (its capacity). When \<open>Publish\<close> or
  \<open>Broadcast\<close> finds the mailbox of a live subscriber full, so that the send would have to
  wait, the subscriber is removed from the bus, its channel closed and its cancel token
  fired, with the values it had still in the mailbox; every other live subscriber that is
  due the value and has room receives it. \<open>Publish\<close> and \<open>Broadcast\<close> always return, without
  a panic, on every bus the operations can build (\<open>bus_inv\<close> holds of \<open>New\<close> and is kept
  by every operation). A subscriber joined at index \<open>-1\<close> that reads nothing is still
  subscribed after the ten publishes of indices 0 to 9 and dropped by the eleventh.
\<close>

theorem behind_subscriber_dropped:
  assumes "bus_inv sp"
  shows "(\<forall>a. a < fresh sp \<longrightarrow>
            cap (ch (objects sp a)) = 10 \<and> length (buf (ch (objects sp a))) \<le> 10) \<and>
         (\<exists>sp'. Publish i v sp = Inr sp' \<and> bus_inv sp' \<and>
            (\<forall>a \<in> set (subscribers sp).
               (\<not> ctx_done (objects sp a) \<and> idx (objects sp a) < i \<and>
                  length (buf (ch (objects sp a))) = 10 \<longrightarrow>
                  a \<notin> set (subscribers sp') \<and> closed (ch (objects sp' a)) \<and>
                  ctx_done (objects sp' a) \<and>
                  buf (ch (objects sp' a)) = buf (ch (objects sp a))) \<and>
               (\<not> ctx_done (objects sp a) \<and> idx (objects sp a) < i \<and>
                  length (buf (ch (objects sp a))) < 10 \<longrightarrow>
                  a \<in> set (subscribers sp') \<and>
                  buf (ch (objects sp' a)) = buf (ch (objects sp a)) @ [v]))) \<and>
         (\<exists>sp'. Broadcast v sp = Inr sp' \<and> bus_inv sp' \<and>
            (\<forall>a \<in> set (subscribers sp).
               (\<not> ctx_done (objects sp a) \<and> length (buf (ch (objects sp a))) = 10 \<longrightarrow>
                  a \<notin> set (subscribers sp') \<and> closed (ch (objects sp' a)) \<and>
                  ctx_done (objects sp' a) \<and>
                  buf (ch (objects sp' a)) = buf (ch (objects sp a))) \<and>
               (\<not> ctx_done (objects sp a) \<and> length (buf (ch (objects sp a))) < 10 \<longrightarrow>
                  a \<in> set (subscribers sp') \<and>
                  buf (ch (objects sp' a)) = buf (ch (objects sp a)) @ [v] \<and>
                  idx (objects sp' a) = idx (objects sp a)))) \<and>
         bus_inv (New :: 'k SubPub) \<and>
         bus_inv (snd (Subscribe parent_done j sp)) \<and>
         bus_inv (cancel b sp) \<and>
         bus_inv (snd (NextFn pick b sp)) \<and>
         map_sum id
           (\<lambda>sp'. (subscribers sp', buf (ch (objects sp' 0)), closed (ch (objects sp' 0)),
                    ctx_done (objects sp' 0)))
           (Publish_all (map (\<lambda>i. (i, i)) [0..9]) (snd (Subscribe False (- 1) New))) =
           Inr ([0], [0, 1, 2, 3, 4, 5, 6, 7, 8, 9], False, False) \<and>
         map_sum id
           (\<lambda>sp'. (subscribers sp', buf (ch (objects sp' 0)), closed (ch (objects sp' 0)),
                    ctx_done (objects sp' 0)))
           (Publish_all (map (\<lambda>i. (i, i)) [0..10]) (snd (Subscribe False (- 1) New))) =
           Inr ([], [0, 1, 2, 3, 4, 5, 6, 7, 8, 9], True, True)"
proof (intro conjI)
  show "\<forall>a. a < fresh sp \<longrightarrow>
      cap (ch (objects sp a)) = 10 \<and> length (buf (ch (objects sp a))) \<le> 10"
    using assms by (simp add: bus_inv_def)
next
  obtain sp' where run: "Publish i v sp = Inr sp'" and inv': "bus_inv sp'"
    using Publish_total [OF assms] by blast
  with Publish_behind [OF assms run]
  show "\<exists>sp'. Publish i v sp = Inr sp' \<and> bus_inv sp' \<and>
            (\<forall>a \<in> set (subscribers sp).
               (\<not> ctx_done (objects sp a) \<and> idx (objects sp a) < i \<and>
                  length (buf (ch (objects sp a))) = 10 \<longrightarrow>
                  a \<notin> set (subscribers sp') \<and> closed (ch (objects sp' a)) \<and>
                  ctx_done (objects sp' a) \<and>
                  buf (ch (objects sp' a)) = buf (ch (objects sp a))) \<and>
               (\<not> ctx_done (objects sp a) \<and> idx (objects sp a) < i \<and>
                  length (buf (ch (objects sp a))) < 10 \<longrightarrow>
                  a \<in> set (subscribers sp') \<and>
                  buf (ch (objects sp' a)) = buf (ch (objects sp a)) @ [v]))"
    by (intro exI [of _ sp'] conjI)
next
  obtain sp' where run: "Broadcast v sp = Inr sp'" and inv': "bus_inv sp'"
    using Broadcast_total [OF assms] by blast
  with Broadcast_behind [OF assms run]
  show "\<exists>sp'. Broadcast v sp = Inr sp' \<and> bus_inv sp' \<and>
            (\<forall>a \<in> set (subscribers sp).
               (\<not> ctx_done (objects sp a) \<and> length (buf (ch (objects sp a))) = 10 \<longrightarrow>
                  a \<notin> set (subscribers sp') \<and> closed (ch (objects sp' a)) \<and>
                  ctx_done (objects sp' a) \<and>
                  buf (ch (objects sp' a)) = buf (ch (objects sp a))) \<and>
               (\<not> ctx_done (objects sp a) \<and> length (buf (ch (objects sp a))) < 10 \<longrightarrow>
                  a \<in> set (subscribers sp') \<and>
                  buf (ch (objects sp' a)) = buf (ch (objects sp a)) @ [v] \<and>
                  idx (objects sp' a) = idx (objects sp a)))"
    by (intro exI [of _ sp'] conjI)
next
  show "bus_inv (New :: 'k SubPub)"
    by (rule bus_inv_New)
next
  show "bus_inv (snd (Subscribe parent_done j sp))"
    using assms by (rule bus_inv_Subscribe)
next
  show "bus_inv (cancel b sp)"
    using assms by (rule bus_inv_cancel)
next
  show "bus_inv (snd (NextFn pick b sp))"
    using assms by (rule bus_inv_NextFn)
next
  show "map_sum id
           (\<lambda>sp'. (subscribers sp', buf (ch (objects sp' 0)), closed (ch (objects sp' 0)),
                    ctx_done (objects sp' 0)))
           (Publish_all (map (\<lambda>i. (i, i)) [0..9]) (snd (Subscribe False (- 1) New))) =
           Inr ([0], [0, 1, 2, 3, 4, 5, 6, 7, 8, 9], False, False)"
    using behind_eleventh_publish by (rule conjunct1)
next
  show "map_sum id
           (\<lambda>sp'. (subscribers sp', buf (ch (objects sp' 0)), closed (ch (objects sp' 0)),
                    ctx_done (objects sp' 0)))
           (Publish_all (map (\<lambda>i. (i, i)) [0..10]) (snd (Subscribe False (- 1) New))) =
           Inr ([], [0, 1, 2, 3, 4, 5, 6, 7, 8, 9], True, True)"
    using behind_eleventh_publish by (rule conjunct2)
qed

theorem behind_subscriber_dropped_witness:
  "bus_inv
     \<lparr>subscribers = [0, 1],
      objects = (\<lambda>_. \<lparr>idx = 0, ch = make_chan 10, ctx_done = True\<rparr>)
        (0 := \<lparr>idx = 9, ch = \<lparr>buf = [0, 1, 2, 3, 4, 5, 6, 7, 8, 9 :: nat], cap = 10,
                                closed = False\<rparr>, ctx_done = False\<rparr>,
         1 := \<lparr>idx = 9, ch = make_chan 10, ctx_done = False\<rparr>),
      fresh = 2\<rparr> \<and>
   (\<exists>sp'. Publish 10 (10::nat)
       \<lparr>subscribers = [0, 1],
        objects = (\<lambda>_. \<lparr>idx = 0, ch = make_chan 10, ctx_done = True\<rparr>)
          (0 := \<lparr>idx = 9, ch = \<lparr>buf = [0, 1, 2, 3, 4, 5, 6, 7, 8, 9 :: nat], cap = 10,
                                  closed = False\<rparr>, ctx_done = False\<rparr>,
           1 := \<lparr>idx = 9, ch = make_chan 10, ctx_done = False\<rparr>),
        fresh = 2\<rparr> = Inr sp' \<and>
      bus_inv sp' \<and> 0 \<notin> set (subscribers sp') \<and> closed (ch (objects sp' 0)) \<and>
      ctx_done (objects sp' 0) \<and> 1 \<in> set (subscribers sp') \<and>
      buf (ch (objects sp' 1)) = [10])"
proof -
  let ?sp = "\<lparr>subscribers = [0, 1],
      objects = (\<lambda>_. \<lparr>idx = 0, ch = make_chan 10, ctx_done = True\<rparr>)
        (0 := \<lparr>idx = 9, ch = \<lparr>buf = [0, 1, 2, 3, 4, 5, 6, 7, 8, 9 :: nat], cap = 10,
                                closed = False\<rparr>, ctx_done = False\<rparr>,
         1 := \<lparr>idx = 9, ch = make_chan 10, ctx_done = False\<rparr>),
      fresh = 2\<rparr>"
  have inv: "bus_inv ?sp"
    by (auto simp: bus_inv_def make_chan_def less_Suc_eq numeral_2_eq_2)
  from behind_subscriber_dropped [OF inv, of 10 10] obtain sp' where
    run: "Publish 10 10 ?sp = Inr sp'" and inv': "bus_inv sp'"
    and each: "\<forall>a \<in> set (subscribers ?sp).
               (\<not> ctx_done (objects ?sp a) \<and> idx (objects ?sp a) < 10 \<and>
                  length (buf (ch (objects ?sp a))) = 10 \<longrightarrow>
                  a \<notin> set (subscribers sp') \<and> closed (ch (objects sp' a)) \<and>
                  ctx_done (objects sp' a) \<and>
                  buf (ch (objects sp' a)) = buf (ch (objects ?sp a))) \<and>
               (\<not> ctx_done (objects ?sp a) \<and> idx (objects ?sp a) < 10 \<and>
                  length (buf (ch (objects ?sp a))) < 10 \<longrightarrow>
                  a \<in> set (subscribers sp') \<and>
                  buf (ch (objects sp' a)) = buf (ch (objects ?sp a)) @ [10])"
    by blast
  from each have "0 \<notin> set (subscribers sp') \<and> closed (ch (objects sp' 0)) \<and>
      ctx_done (objects sp' 0) \<and> 1 \<in> set (subscribers sp') \<and>
      buf (ch (objects sp' 1)) = [10]"
    by (simp add: make_chan_def)
  with inv run inv' show ?thesis
    by blast
qed

subsection \<open>Draining after cancellation\<close>

text \<open>
  Claim C3: once a subscriber's cancel token has fired, each call of its \<open>NextFn\<close> returns
  the oldest value still in the mailbox and removes it (whichever case the \<open>select\<close>
  takes), and returns the terminal signal exactly when the mailbox is empty. So a run of
  calls yields every value that was enqueued, in the order of enqueueing, before the
  first terminal signal: none is lost.
\<close>

theorem NextFn_cancelled_drains:
  assumes "ctx_done (objects sp a)"
  shows "(fst (NextFn pick a sp) = Terminal \<longleftrightarrow> buf (ch (objects sp a)) = []) \<and>
         (\<forall>v vs. buf (ch (objects sp a)) = v # vs \<longrightarrow>
            fst (NextFn pick a sp) = Msg v \<and>
            buf (ch (objects (snd (NextFn pick a sp)) a)) = vs \<and>
            ctx_done (objects (snd (NextFn pick a sp)) a)) \<and>
         (length picks = Suc (length (buf (ch (objects sp a)))) \<longrightarrow>
            fst (NextFn_calls picks a sp) = map Msg (buf (ch (objects sp a))) @ [Terminal])"
proof (intro conjI allI impI)
  show "fst (NextFn pick a sp) = Terminal \<longleftrightarrow> buf (ch (objects sp a)) = []"
  proof (cases "buf (ch (objects sp a))")
    case Nil
    with assms show ?thesis
      by (simp add: NextFn_cancelled_Nil)
  next
    case (Cons v vs)
    with assms show ?thesis
      by (simp add: NextFn_cancelled_Cons)
  qed
next
  fix v vs assume b: "buf (ch (objects sp a)) = v # vs"
  note step = NextFn_cancelled_Cons [OF assms b, of pick]
  show "fst (NextFn pick a sp) = Msg v"
    by (simp add: step)
  show "buf (ch (objects (snd (NextFn pick a sp)) a)) = vs"
    by (simp add: step)
  show "ctx_done (objects (snd (NextFn pick a sp)) a)"
    using assms by (simp add: step)
next
  assume "length picks = Suc (length (buf (ch (objects sp a))))"
  then have "length picks = length (buf (ch (objects sp a))) + 1"
    by simp
  from NextFn_calls_drain [OF assms refl this]
  show "fst (NextFn_calls picks a sp) = map Msg (buf (ch (objects sp a))) @ [Terminal]"
    by simp
qed

theorem NextFn_cancelled_drains_witness:
  "ctx_done (objects
     \<lparr>subscribers = [0],
      objects = (\<lambda>_. \<lparr>idx = 3, ch = \<lparr>buf = [11, 12, 13 :: nat], cap = 10, closed = False\<rparr>,
                       ctx_done = True\<rparr>),
      fresh = 1\<rparr> 0) \<and>
   fst (NextFn_calls [True, False, True, False] 0
     \<lparr>subscribers = [0],
      objects = (\<lambda>_. \<lparr>idx = 3, ch = \<lparr>buf = [11, 12, 13 :: nat], cap = 10, closed = False\<rparr>,
                       ctx_done = True\<rparr>),
      fresh = 1\<rparr>) = [Msg 11, Msg 12, Msg 13, Terminal] \<and>
   fst (NextFn True 0
     \<lparr>subscribers = [0],
      objects = (\<lambda>_. \<lparr>idx = 3, ch = \<lparr>buf = [11, 12, 13 :: nat], cap = 10, closed = False\<rparr>,
                       ctx_done = True\<rparr>),
      fresh = 1\<rparr>) = Msg 11"
proof -
  let ?sp = "\<lparr>subscribers = [0],
      objects = (\<lambda>_. \<lparr>idx = 3, ch = \<lparr>buf = [11, 12, 13 :: nat], cap = 10, closed = False\<rparr>,
                       ctx_done = True\<rparr>),
      fresh = 1\<rparr>"
  have c: "ctx_done (objects ?sp 0)"
    by simp
  from NextFn_cancelled_drains [OF c, of True "[True, False, True, False]"] c
  show ?thesis
    by simp
qed

section \<open>The slug allocator\<close>

subsection \<open>\<open>Sanitize\<close>\<close>

text \<open>
  Go strings are byte sequences, and so are the strings here (\<open>char\<close> is a byte). The
  functions of the standard library that \<open>Sanitize\<close> calls are written out for what they
  do to bytes.

  \<open>strings.ToLower\<close> has two paths. A string of ASCII bytes only gets its letters
  \<open>A\<close> to \<open>Z\<close> mapped to \<open>a\<close> to \<open>z\<close>. Any other string goes through
  \<open>strings.Map(unicode.ToLower, s)\<close>, which works with the case tables of Unicode; that
  path is the parameter \<open>unicode_lower\<close>, about which nothing is assumed.
\<close>

definition isASCII :: "char \<Rightarrow> bool" where
  "isASCII c \<longleftrightarrow> of_char c < (128 :: nat)"

definition isUpper :: "char \<Rightarrow> bool" where
  "isUpper c \<longleftrightarrow> CHR ''A'' \<le> c \<and> c \<le> CHR ''Z''"

definition toLowerASCII :: "char \<Rightarrow> char" where
  "toLowerASCII c = (if isUpper c then char_of (of_char c + (32 :: nat)) else c)"

definition ToLower :: "(string \<Rightarrow> string) \<Rightarrow> string \<Rightarrow> string" where
  "ToLower unicode_lower s =
     (if list_all isASCII s then map toLowerASCII s else unicode_lower s)"

text \<open>
  \<open>regexp.MustCompile(`[...]+`).ReplaceAllString(slug, repl)\<close> for a character class:
  every maximal run of bytes of the class \<open>P\<close> is replaced by \<open>repl\<close>. The three classes
  of \<open>Sanitize\<close> are \<open>[\s_]\<close> (Go's \<open>\s\<close> is tab, newline, form feed, carriage return
  and space), the complement of \<open>[a-z0-9-]\<close>, and \<open>-\<close>. A byte of a character that is
  not ASCII is never in the first or in the third class and always in the second.
\<close>

function ReplaceAll :: "(char \<Rightarrow> bool) \<Rightarrow> string \<Rightarrow> string \<Rightarrow> string" where
  "ReplaceAll P repl [] = []"
| "ReplaceAll P repl (c # cs) =
     (if P c then repl @ ReplaceAll P repl (dropWhile P cs)
      else c # ReplaceAll P repl cs)"
  by pat_completeness auto
termination
  by (relation "measure (\<lambda>(P, repl, s). length s)")
     (auto simp: le_imp_less_Suc length_dropWhile_le)

definition isSpaceOrUnderscore :: "char \<Rightarrow> bool" where
  "isSpaceOrUnderscore c \<longleftrightarrow>
     c = CHR 0x09 \<or> c = CHR 0x0A \<or> c = CHR 0x0C \<or> c = CHR 0x0D \<or> c = CHR '' '' \<or> c = CHR ''_''"

definition isSlugChar :: "char \<Rightarrow> bool" where
  "isSlugChar c \<longleftrightarrow>
     (CHR ''a'' \<le> c \<and> c \<le> CHR ''z'') \<or> (CHR ''0'' \<le> c \<and> c \<le> CHR ''9'') \<or> c = CHR ''-''"

text \<open>\<open>strings.Trim(s, cutset)\<close> removes the leading and the trailing bytes that are in \<open>cutset\<close>.\<close>

definition Trim :: "string \<Rightarrow> string \<Rightarrow> string" where
  "Trim s cutset =
     rev (dropWhile (\<lambda>c. c \<in> set cutset) (rev (dropWhile (\<lambda>c. c \<in> set cutset) s)))"

text \<open>
  \<^verbatim>\<open>
  slug := strings.ToLower(input)
  slug = regexp.MustCompile(`[\s_]+`).ReplaceAllString(slug, "-")
  slug = regexp.MustCompile(`[^a-z0-9-]+`).ReplaceAllString(slug, "")
  slug = regexp.MustCompile(`-+`).ReplaceAllString(slug, "-")
  slug = strings.Trim(slug, "-")
  if len(slug) > 60 {
      slug = slug[:60]
      slug = strings.Trim(slug, "-")
  }
  return slug
  \<close>
\<close>

definition Sanitize :: "(string \<Rightarrow> string) \<Rightarrow> string \<Rightarrow> string" where
  "Sanitize unicode_lower input =
     (let slug = ToLower unicode_lower input;
          slug = ReplaceAll isSpaceOrUnderscore ''-'' slug;
          slug = ReplaceAll (\<lambda>c. \<not> isSlugChar c) [] slug;
          slug = ReplaceAll (\<lambda>c. c = CHR ''-'') ''-'' slug;
          slug = Trim slug ''-''
      in if length slug > 60 then Trim (take 60 slug) ''-'' else slug)"

text \<open>No two hyphens side by side: what the third replacement establishes.\<close>

fun noDoubleHyphen :: "string \<Rightarrow> bool" where
  "noDoubleHyphen (c # d # cs) \<longleftrightarrow>
     \<not> (c = CHR ''-'' \<and> d = CHR ''-'') \<and> noDoubleHyphen (d # cs)"
| "noDoubleHyphen _ \<longleftrightarrow> True"

declare ReplaceAll.simps [simp del]

lemma ReplaceAll_Nil [simp]: "ReplaceAll P repl [] = []"
  by (simp add: ReplaceAll.simps)

lemma ReplaceAll_hit: "P c \<Longrightarrow> ReplaceAll P repl (c # cs) = repl @ ReplaceAll P repl (dropWhile P cs)"
  by (simp add: ReplaceAll.simps)

lemma ReplaceAll_miss: "\<not> P c \<Longrightarrow> ReplaceAll P repl (c # cs) = c # ReplaceAll P repl cs"
  by (simp add: ReplaceAll.simps)

lemma ReplaceAll_none: "\<forall>c \<in> set s. \<not> P c \<Longrightarrow> ReplaceAll P repl s = s"
  by (induction s) (simp_all add: ReplaceAll_miss)

lemma filter_dropWhile_not: "filter (\<lambda>c. \<not> P c) (dropWhile P cs) = filter (\<lambda>c. \<not> P c) cs"
  by (induction cs) simp_all

lemma ReplaceAll_empty_filter: "ReplaceAll P [] s = filter (\<lambda>c. \<not> P c) s"
proof (induction P "[] :: string" s rule: ReplaceAll.induct)
  case (1 P)
  show ?case by simp
next
  case (2 P c cs)
  show ?case
  proof (cases "P c")
    case True
    with 2 show ?thesis
      by (simp add: ReplaceAll_hit filter_dropWhile_not)
  next
    case False
    with 2 show ?thesis
      by (simp add: ReplaceAll_miss)
  qed
qed

lemma set_ReplaceAll: "set (ReplaceAll P repl s) \<subseteq> set s \<union> set repl"
proof (induction P repl s rule: ReplaceAll.induct)
  case (1 P repl)
  show ?case by simp
next
  case (2 P repl c cs)
  show ?case
  proof (cases "P c")
    case True
    with 2 have "set (ReplaceAll P repl (dropWhile P cs)) \<subseteq> set (dropWhile P cs) \<union> set repl"
      by simp
    moreover have "set (dropWhile P cs) \<subseteq> set cs"
      by (auto dest: set_dropWhileD)
    ultimately show ?thesis
      using True by (auto simp: ReplaceAll_hit)
  next
    case False
    with 2 show ?thesis
      by (auto simp: ReplaceAll_miss)
  qed
qed

lemma noDoubleHyphen_Cons:
  "noDoubleHyphen (c # xs) \<longleftrightarrow>
     noDoubleHyphen xs \<and> (c = CHR ''-'' \<longrightarrow> xs = [] \<or> hd xs \<noteq> CHR ''-'')"
  by (cases xs) auto

lemma noDoubleHyphen_collapse_aux:
  assumes "P = (\<lambda>c. c = CHR ''-'')" and "repl = ''-''"
  shows "noDoubleHyphen (ReplaceAll P repl s)"
  using assms
proof (induction P repl s rule: ReplaceAll.induct)
  case (1 P repl)
  show ?case by simp
next
  case (2 P repl c cs)
  show ?case
  proof (cases "P c")
    case True
    with 2 have ih: "noDoubleHyphen (ReplaceAll P repl (dropWhile P cs))"
      by simp
    have nh: "ReplaceAll P repl (dropWhile P cs) = [] \<or>
        hd (ReplaceAll P repl (dropWhile P cs)) \<noteq> CHR ''-''"
    proof (cases "dropWhile P cs")
      case Nil
      then show ?thesis
        by (simp only: ReplaceAll_Nil simp_thms)
    next
      case (Cons x xs)
      then have "dropWhile P cs \<noteq> []"
        by simp
      then have "\<not> P (hd (dropWhile P cs))"
        by (rule hd_dropWhile)
      with Cons have np: "\<not> P x"
        by simp
      then have "ReplaceAll P repl (x # xs) = x # ReplaceAll P repl xs"
        by (rule ReplaceAll_miss)
      with Cons np "2.prems" show ?thesis
        by simp
    qed
    have "ReplaceAll P repl (c # cs) = CHR ''-'' # ReplaceAll P repl (dropWhile P cs)"
      using True "2.prems" by (simp add: ReplaceAll_hit)
    moreover have "noDoubleHyphen (CHR ''-'' # ReplaceAll P repl (dropWhile P cs))"
      using ih nh by (auto simp: noDoubleHyphen_Cons)
    ultimately show ?thesis
      by simp
  next
    case False
    with 2 have ih: "noDoubleHyphen (ReplaceAll P repl cs)"
      by simp
    from False "2.prems" have "c \<noteq> CHR ''-''"
      by simp
    with ih have "noDoubleHyphen (c # ReplaceAll P repl cs)"
      by (simp add: noDoubleHyphen_Cons)
    with False show ?thesis
      by (simp add: ReplaceAll_miss)
  qed
qed

lemma noDoubleHyphen_collapse:
  "noDoubleHyphen (ReplaceAll (\<lambda>c. c = CHR ''-'') ''-'' s)"
  by (rule noDoubleHyphen_collapse_aux) simp_all

lemma collapse_noDoubleHyphen:
  "noDoubleHyphen s \<Longrightarrow> ReplaceAll (\<lambda>c. c = CHR ''-'') ''-'' s = s"
proof (induction s)
  case Nil
  show ?case by simp
next
  case (Cons c cs)
  then have rest: "ReplaceAll (\<lambda>c. c = CHR ''-'') ''-'' cs = cs"
    by (simp add: noDoubleHyphen_Cons)
  show ?case
  proof (cases "c = CHR ''-''")
    case True
    with Cons.prems have "cs = [] \<or> hd cs \<noteq> CHR ''-''"
      by (simp add: noDoubleHyphen_Cons)
    then have "dropWhile (\<lambda>c. c = CHR ''-'') cs = cs"
      by (cases cs) auto
    with True rest show ?thesis
      by (simp add: ReplaceAll_hit)
  next
    case False
    with rest show ?thesis
      by (simp add: ReplaceAll_miss)
  qed
qed

lemma noDoubleHyphen_dropWhile: "noDoubleHyphen s \<Longrightarrow> noDoubleHyphen (dropWhile P s)"
  by (induction s) (auto simp: noDoubleHyphen_Cons)

lemma noDoubleHyphen_take: "noDoubleHyphen s \<Longrightarrow> noDoubleHyphen (take n s)"
proof (induction s arbitrary: n)
  case Nil
  show ?case by simp
next
  case (Cons c cs)
  show ?case
  proof (cases n)
    case 0
    then show ?thesis by simp
  next
    case (Suc m)
    from Cons have "noDoubleHyphen (take m cs)"
      by (simp add: noDoubleHyphen_Cons)
    moreover have "take m cs = [] \<or> hd (take m cs) = hd cs"
      by (cases m; cases cs) simp_all
    ultimately show ?thesis
      using Cons.prems Suc by (auto simp: noDoubleHyphen_Cons)
  qed
qed

lemma rev_dropWhile_rev_take:
  "rev (dropWhile P (rev s)) = take (length (dropWhile P (rev s))) s"
proof -
  have "rev s = takeWhile P (rev s) @ dropWhile P (rev s)"
    by simp
  then have "s = rev (dropWhile P (rev s)) @ rev (takeWhile P (rev s))"
    by (metis rev_append rev_rev_ident)
  then have "take (length (dropWhile P (rev s))) s =
      take (length (dropWhile P (rev s))) (rev (dropWhile P (rev s)) @ rev (takeWhile P (rev s)))"
    by simp
  then show ?thesis
    by simp
qed

lemma noDoubleHyphen_Trim: "noDoubleHyphen s \<Longrightarrow> noDoubleHyphen (Trim s cutset)"
  unfolding Trim_def
  by (subst rev_dropWhile_rev_take) (intro noDoubleHyphen_take noDoubleHyphen_dropWhile)

lemma set_Trim: "set (Trim s cutset) \<subseteq> set s"
  unfolding Trim_def by (auto dest!: set_dropWhileD)

lemma length_Trim: "length (Trim s cutset) \<le> length s"
proof -
  have "length (Trim s cutset) \<le> length (dropWhile (\<lambda>c. c \<in> set cutset) s)"
    unfolding Trim_def
    using length_dropWhile_le [of "\<lambda>c. c \<in> set cutset" "rev (dropWhile (\<lambda>c. c \<in> set cutset) s)"]
    by simp
  also have "\<dots> \<le> length s"
    by (rule length_dropWhile_le)
  finally show ?thesis .
qed

lemma Trim_ends:
  "Trim s cutset = [] \<or>
     (hd (Trim s cutset) \<notin> set cutset \<and> last (Trim s cutset) \<notin> set cutset)"
proof (cases "Trim s cutset = []")
  case True
  then show ?thesis by simp
next
  case False
  let ?P = "\<lambda>c. c \<in> set cutset"
  let ?d = "dropWhile ?P s"
  let ?e = "dropWhile ?P (rev ?d)"
  from False have e: "?e \<noteq> []"
    by (simp add: Trim_def)
  have d: "?d \<noteq> []"
  proof
    assume "?d = []"
    then have "?e = []"
      by (simp only: rev.simps dropWhile.simps)
    with e show False ..
  qed
  from e have "\<not> ?P (hd ?e)"
    by (rule hd_dropWhile)
  then have last: "last (Trim s cutset) \<notin> set cutset"
    using e by (simp add: Trim_def last_rev)
  have "rev ?d = takeWhile ?P (rev ?d) @ ?e"
    by simp
  with e have "last (rev ?d) = last ?e"
    by (metis last_appendR)
  with d have "last ?e = hd ?d"
    by (simp add: last_rev)
  moreover from d have "\<not> ?P (hd ?d)"
    by (rule hd_dropWhile)
  ultimately have "hd (Trim s cutset) \<notin> set cutset"
    using e by (simp add: Trim_def hd_rev)
  with last show ?thesis
    by simp
qed

lemma Trim_fixed:
  assumes "s = [] \<or> (hd s \<notin> set cutset \<and> last s \<notin> set cutset)"
  shows "Trim s cutset = s"
proof (cases s)
  case Nil
  then show ?thesis by (simp add: Trim_def)
next
  case (Cons c cs)
  with assms have h: "c \<notin> set cutset" and l: "last s \<notin> set cutset"
    by simp_all
  from h Cons have "dropWhile (\<lambda>c. c \<in> set cutset) s = s"
    by simp
  moreover have "dropWhile (\<lambda>c. c \<in> set cutset) (rev s) = rev s"
  proof (cases "rev s")
    case Nil
    with Cons show ?thesis by simp
  next
    case (Cons y ys)
    then have "hd (rev s) = y"
      by simp
    moreover have "hd (rev s) = last s"
      by (rule hd_rev)
    ultimately have "y \<notin> set cutset"
      using l by simp
    with Cons show ?thesis
      by simp
  qed
  ultimately show ?thesis
    by (simp add: Trim_def)
qed

lemma isSlugChar_plain:
  "isSlugChar c \<Longrightarrow> isASCII c \<and> \<not> isUpper c \<and> \<not> isSpaceOrUnderscore c"
  by (auto simp: isSlugChar_def isASCII_def isUpper_def isSpaceOrUnderscore_def less_eq_char_def)

lemma isSlugChar_hyphen: "isSlugChar (CHR ''-'')"
  by (simp add: isSlugChar_def)

lemma ToLower_slug:
  assumes "\<forall>c \<in> set s. isSlugChar c"
  shows "ToLower unicode_lower s = s"
proof -
  from assms have "list_all isASCII s"
    by (simp add: list_all_iff isSlugChar_plain)
  moreover from assms have "map toLowerASCII s = s"
    by (intro map_idI) (simp add: toLowerASCII_def isSlugChar_plain)
  ultimately show ?thesis
    by (simp add: ToLower_def)
qed

lemma Sanitize_fixed:
  assumes cls: "\<forall>c \<in> set s. isSlugChar c"
    and nd: "noDoubleHyphen s"
    and ends: "s = [] \<or> (hd s \<noteq> CHR ''-'' \<and> last s \<noteq> CHR ''-'')"
    and len: "length s \<le> 60"
  shows "Sanitize unicode_lower s = s"
proof -
  have 1: "ToLower unicode_lower s = s"
    using cls by (rule ToLower_slug)
  have 2: "ReplaceAll isSpaceOrUnderscore ''-'' s = s"
    using cls by (intro ReplaceAll_none) (simp add: isSlugChar_plain)
  have 3: "ReplaceAll (\<lambda>c. \<not> isSlugChar c) [] s = s"
    using cls by (intro ReplaceAll_none) simp
  have 4: "ReplaceAll (\<lambda>c. c = CHR ''-'') ''-'' s = s"
    using nd by (rule collapse_noDoubleHyphen)
  have 5: "Trim s ''-'' = s"
    using ends by (intro Trim_fixed) simp
  show ?thesis
    using len by (simp add: Sanitize_def 1 2 3 4 5)
qed

lemma Sanitize_slug:
  "(\<forall>c \<in> set (Sanitize unicode_lower x). isSlugChar c) \<and>
   noDoubleHyphen (Sanitize unicode_lower x) \<and>
   (Sanitize unicode_lower x = [] \<or>
      (hd (Sanitize unicode_lower x) \<noteq> CHR ''-'' \<and> last (Sanitize unicode_lower x) \<noteq> CHR ''-'')) \<and>
   length (Sanitize unicode_lower x) \<le> 60"
proof -
  define z where "z = ReplaceAll isSpaceOrUnderscore ''-'' (ToLower unicode_lower x)"
  define f where "f = ReplaceAll (\<lambda>c. \<not> isSlugChar c) [] z"
  define h where "h = ReplaceAll (\<lambda>c. c = CHR ''-'') ''-'' f"
  define t where "t = Trim h ''-''"
  define r where "r = (if length t > 60 then Trim (take 60 t) ''-'' else t)"
  have r: "Sanitize unicode_lower x = r"
    by (simp add: Sanitize_def z_def f_def h_def t_def r_def)
  have "f = filter isSlugChar z"
    by (simp add: f_def ReplaceAll_empty_filter)
  then have fc: "\<forall>c \<in> set f. isSlugChar c"
    by simp
  have "set h \<subseteq> set f \<union> set ''-''"
    unfolding h_def by (rule set_ReplaceAll)
  with fc have hc: "\<forall>c \<in> set h. isSlugChar c"
    using isSlugChar_hyphen by auto
  have "set t \<subseteq> set h"
    unfolding t_def by (rule set_Trim)
  with hc have tc: "\<forall>c \<in> set t. isSlugChar c"
    by auto
  have "set (Trim (take 60 t) ''-'') \<subseteq> set (take 60 t)"
    by (rule set_Trim)
  also have "\<dots> \<subseteq> set t"
    by (rule set_take_subset)
  finally have rc: "\<forall>c \<in> set r. isSlugChar c"
    using tc by (auto simp: r_def)
  have hn: "noDoubleHyphen h"
    unfolding h_def by (rule noDoubleHyphen_collapse)
  then have tn: "noDoubleHyphen t"
    unfolding t_def by (rule noDoubleHyphen_Trim)
  then have "noDoubleHyphen (Trim (take 60 t) ''-'')"
    by (intro noDoubleHyphen_Trim noDoubleHyphen_take)
  with tn have rn: "noDoubleHyphen r"
    by (simp add: r_def)
  have "t = [] \<or> (hd t \<notin> set ''-'' \<and> last t \<notin> set ''-'')"
    unfolding t_def by (rule Trim_ends)
  moreover have "Trim (take 60 t) ''-'' = [] \<or>
      (hd (Trim (take 60 t) ''-'') \<notin> set ''-'' \<and> last (Trim (take 60 t) ''-'') \<notin> set ''-'')"
    by (rule Trim_ends)
  ultimately have re: "r = [] \<or> (hd r \<noteq> CHR ''-'' \<and> last r \<noteq> CHR ''-'')"
    by (auto simp: r_def)
  have "length (Trim (take 60 t) ''-'') \<le> length (take 60 t)"
    by (rule length_Trim)
  then have rl: "length r \<le> 60"
    by (simp add: r_def)
  from rc rn re rl show ?thesis
    unfolding r by blast
qed

text \<open>
  Claim C6: \<open>Sanitize\<close> is idempotent, \<open>Sanitize(Sanitize(x)) = Sanitize(x)\<close> for every
  string \<open>x\<close> (and whatever the Unicode lower-casing does to strings that are not ASCII):
  its result holds only characters of \<open>[a-z0-9-]\<close>, no two hyphens in a row, no hyphen
  at either end and at most 60 characters, and it leaves such a string as it is.
\<close>

theorem Sanitize_idempotent:
  "Sanitize unicode_lower (Sanitize unicode_lower x) = Sanitize unicode_lower x"
  using Sanitize_slug [of unicode_lower x] by (intro Sanitize_fixed) simp_all

theorem Sanitize_idempotent_witness:
  "Sanitize (\<lambda>s. s) ''Create a Python Script'' = ''create-a-python-script'' \<and>
   Sanitize (\<lambda>s. s) ''create-a-python-script'' = ''create-a-python-script''"
proof -
  have "Sanitize (\<lambda>s. s) ''Create a Python Script'' = ''create-a-python-script''"
    by code_simp
  with Sanitize_idempotent [of "\<lambda>s. s" "''Create a Python Script''"] show ?thesis
    by simp
qed

subsection \<open>\<open>TrimSpace\<close>\<close>

text \<open>
  \<open>strings.TrimSpace\<close> removes leading and trailing white space as Unicode defines it
  (\<open>unicode.IsSpace\<close>): the six ASCII characters tab, newline, vertical tab, form feed,
  carriage return and space, and U+0085, U+00A0, U+1680, U+2000 to U+200A, U+2028, U+2029,
  U+202F, U+205F and U+3000, here with their UTF-8 encodings. \<open>leadingSpace\<close> and
  \<open>trailingSpace\<close> give the length in bytes of the white-space character the string starts
  or ends with, 0 when there is none.
\<close>

definition spaceRunes :: "string list" where
  "spaceRunes =
     [[CHR 0x09], [CHR 0x0A], [CHR 0x0B], [CHR 0x0C], [CHR 0x0D], [CHR 0x20],
      [CHR 0xC2, CHR 0x85], [CHR 0xC2, CHR 0xA0],
      [CHR 0xE1, CHR 0x9A, CHR 0x80],
      [CHR 0xE2, CHR 0x80, CHR 0x80], [CHR 0xE2, CHR 0x80, CHR 0x81],
      [CHR 0xE2, CHR 0x80, CHR 0x82], [CHR 0xE2, CHR 0x80, CHR 0x83],
      [CHR 0xE2, CHR 0x80, CHR 0x84], [CHR 0xE2, CHR 0x80, CHR 0x85],
      [CHR 0xE2, CHR 0x80, CHR 0x86], [CHR 0xE2, CHR 0x80, CHR 0x87],
      [CHR 0xE2, CHR 0x80, CHR 0x88], [CHR 0xE2, CHR 0x80, CHR 0x89],
      [CHR 0xE2, CHR 0x80, CHR 0x8A],
      [CHR 0xE2, CHR 0x80, CHR 0xA8], [CHR 0xE2, CHR 0x80, CHR 0xA9],
      [CHR 0xE2, CHR 0x80, CHR 0xAF], [CHR 0xE2, CHR 0x81, CHR 0x9F],
      [CHR 0xE3, CHR 0x80, CHR 0x80]]"

definition leadingSpace :: "string \<Rightarrow> nat" where
  "leadingSpace s =
     (case find (\<lambda>e. take (length e) s = e) spaceRunes of
        None \<Rightarrow> 0
      | Some e \<Rightarrow> length e)"

definition trailingSpace :: "string \<Rightarrow> nat" where
  "trailingSpace s =
     (case find (\<lambda>e. drop (length s - length e) s = e) spaceRunes of
        None \<Rightarrow> 0
      | Some e \<Rightarrow> length e)"

function TrimLeftSpace :: "string \<Rightarrow> string" where
  "TrimLeftSpace s =
     (if s \<noteq> [] \<and> 0 < leadingSpace s then TrimLeftSpace (drop (leadingSpace s) s) else s)"
  by pat_completeness auto
termination
  by (relation "measure length") auto

function TrimRightSpace :: "string \<Rightarrow> string" where
  "TrimRightSpace s =
     (if s \<noteq> [] \<and> 0 < trailingSpace s
      then TrimRightSpace (take (length s - trailingSpace s) s) else s)"
  by pat_completeness auto
termination
  by (relation "measure length") auto

declare TrimLeftSpace.simps [simp del]

declare TrimRightSpace.simps [simp del]

definition TrimSpace :: "string \<Rightarrow> string" where
  "TrimSpace s = TrimRightSpace (TrimLeftSpace s)"

subsection \<open>Asking a model for a slug\<close>

text \<open>
  The types of the \<open>llm\<close> package as far as \<open>callSlugLLM\<close> reads them: a response is a
  list of content blocks, each with a type and a text. A service answers a request, here
  the prompt of its one user message, with an error message or a response (the call has a
  timeout of 10 seconds; running into it is one of the errors).
\<close>

datatype ContentType =
  ContentTypeText | ContentTypeThinking | ContentTypeRedactedThinking
  | ContentTypeToolUse | ContentTypeToolResult

record Content =
  Type :: ContentType
  Text :: string

record Response =
  Content :: "Content list"

type_synonym Service = "string \<Rightarrow> string + Response"

definition slugPrompt :: "string \<Rightarrow> string" where
  "slugPrompt userMessage =
     ''Generate a short, descriptive slug (2-6 words, lowercase, hyphen-separated) for a conversation that starts with this user message:''
     @ [CHR 0x0A, CHR 0x0A] @ userMessage @ [CHR 0x0A, CHR 0x0A]
     @ ''The slug should:'' @ [CHR 0x0A]
     @ ''- Be concise and descriptive'' @ [CHR 0x0A]
     @ ''- Use only lowercase letters, numbers, and hyphens'' @ [CHR 0x0A]
     @ ''- Capture the main topic or intent'' @ [CHR 0x0A]
     @ ''- Be suitable as a filename or URL path'' @ [CHR 0x0A, CHR 0x0A]
     @ ''Respond with only the slug, nothing else.''"

text \<open>
  \<^verbatim>\<open>
  var rawSlug string
  for _, c := range response.Content {
      if c.Type == llm.ContentTypeText && c.Text != "" { rawSlug = c.Text; break }
  }
  \<close>
\<close>

fun firstText :: "Content list \<Rightarrow> string" where
  "firstText [] = []"
| "firstText (c # cs) =
     (if Type c = ContentTypeText \<and> Text c \<noteq> [] then Text c else firstText cs)"

definition callSlugLLM :: "(string \<Rightarrow> string) \<Rightarrow> Service \<Rightarrow> string \<Rightarrow> string + string" where
  "callSlugLLM unicode_lower llmService userMessage =
     (case llmService (slugPrompt userMessage) of
        Inl err \<Rightarrow> Inl (''failed to generate slug: '' @ err)
      | Inr response \<Rightarrow>
          (let rawSlug = firstText (Content response) in
           if rawSlug = [] then Inl ''no text content in LLM response''
           else
             (let slug = TrimSpace rawSlug;
                  slug = Sanitize unicode_lower slug
              in if slug = [] then Inl ''generated slug is empty after sanitization''
                 else Inr slug)))"

text \<open>
  \<open>generateSlugText\<close> picks the model: the deterministic testing model when the
  conversation uses it, then the models tagged \<open>slug\<close>, then those tagged
  \<open>slug-backup\<close> (\<open>tryTags\<close>, \<open>tryModels\<close>: the two nested loops, which go on to the
  next model when one fails), then the conversation's own model (\<open>fallbackModel\<close>).
\<close>

record ModelInfo =
  Tags :: string

record LLMServiceProvider =
  GetService :: "string \<Rightarrow> string + Service"
  GetAvailableModels :: "string list"
  GetModelInfo :: "string \<Rightarrow> ModelInfo option"

fun Split :: "string \<Rightarrow> char \<Rightarrow> string list" where
  "Split [] sep = [[]]"
| "Split (c # cs) sep =
     (if c = sep then [] # Split cs sep
      else (case Split cs sep of
              [] \<Rightarrow> [[c]]
            | t # ts \<Rightarrow> (c # t) # ts))"

definition hasTag :: "string \<Rightarrow> string \<Rightarrow> bool" where
  "hasTag tags tag = list_ex (\<lambda>t. TrimSpace t = tag) (Split tags (CHR '',''))"

fun tryModels :: "(string \<Rightarrow> string) \<Rightarrow> LLMServiceProvider \<Rightarrow> string \<Rightarrow> string \<Rightarrow>
    string list \<Rightarrow> string option" where
  "tryModels unicode_lower llmProvider userMessage tag [] = None"
| "tryModels unicode_lower llmProvider userMessage tag (modelID # modelIDs) =
     (case GetModelInfo llmProvider modelID of
        None \<Rightarrow> tryModels unicode_lower llmProvider userMessage tag modelIDs
      | Some info \<Rightarrow>
          if \<not> hasTag (Tags info) tag
          then tryModels unicode_lower llmProvider userMessage tag modelIDs
          else
            (case GetService llmProvider modelID of
               Inl err \<Rightarrow> tryModels unicode_lower llmProvider userMessage tag modelIDs
             | Inr llmService \<Rightarrow>
                 (case callSlugLLM unicode_lower llmService userMessage of
                    Inr slug \<Rightarrow> Some slug
                  | Inl err \<Rightarrow> tryModels unicode_lower llmProvider userMessage tag modelIDs)))"

fun tryTags :: "(string \<Rightarrow> string) \<Rightarrow> LLMServiceProvider \<Rightarrow> string \<Rightarrow> string list \<Rightarrow>
    string option" where
  "tryTags unicode_lower llmProvider userMessage [] = None"
| "tryTags unicode_lower llmProvider userMessage (tag # tags) =
     (case tryModels unicode_lower llmProvider userMessage tag (GetAvailableModels llmProvider) of
        Some slug \<Rightarrow> Some slug
      | None \<Rightarrow> tryTags unicode_lower llmProvider userMessage tags)"

definition fallbackModel :: "(string \<Rightarrow> string) \<Rightarrow> LLMServiceProvider \<Rightarrow> string \<Rightarrow> string \<Rightarrow>
    string + string" where
  "fallbackModel unicode_lower llmProvider userMessage conversationModelID =
     (if conversationModelID \<noteq> [] \<and> conversationModelID \<noteq> ''predictable'' then
        (case GetService llmProvider conversationModelID of
           Inr llmService \<Rightarrow> callSlugLLM unicode_lower llmService userMessage
         | Inl err \<Rightarrow> Inl ''no suitable model available for slug generation'')
      else Inl ''no suitable model available for slug generation'')"

definition taggedModels :: "(string \<Rightarrow> string) \<Rightarrow> LLMServiceProvider \<Rightarrow> string \<Rightarrow> string \<Rightarrow>
    string + string" where
  "taggedModels unicode_lower llmProvider userMessage conversationModelID =
     (case tryTags unicode_lower llmProvider userMessage [''slug'', ''slug-backup''] of
        Some slug \<Rightarrow> Inr slug
      | None \<Rightarrow> fallbackModel unicode_lower llmProvider userMessage conversationModelID)"

definition generateSlugText :: "(string \<Rightarrow> string) \<Rightarrow> LLMServiceProvider \<Rightarrow> string \<Rightarrow> string \<Rightarrow>
    string + string" where
  "generateSlugText unicode_lower llmProvider userMessage conversationModelID =
     (if conversationModelID = ''predictable'' then
        (case GetService llmProvider ''predictable'' of
           Inr llmService \<Rightarrow> callSlugLLM unicode_lower llmService userMessage
         | Inl err \<Rightarrow> taggedModels unicode_lower llmProvider userMessage conversationModelID)
      else taggedModels unicode_lower llmProvider userMessage conversationModelID)"

subsection \<open>Persisting the slug\<close>

text \<open>
  \<open>strings.Contains\<close>, the test for a unique-constraint violation on the lower-cased
  error message, and \<open>%d\<close> of a number that is not negative.
\<close>

fun Contains :: "string \<Rightarrow> string \<Rightarrow> bool" where
  "Contains [] substr \<longleftrightarrow> substr = []"
| "Contains (c # cs) substr \<longleftrightarrow> take (length substr) (c # cs) = substr \<or> Contains cs substr"

definition isUniqueViolation :: "(string \<Rightarrow> string) \<Rightarrow> string \<Rightarrow> bool" where
  "isUniqueViolation unicode_lower err \<longleftrightarrow>
     Contains (ToLower unicode_lower err) ''unique constraint failed'' \<or>
     Contains (ToLower unicode_lower err) ''unique constraint'' \<or>
     Contains (ToLower unicode_lower err) ''duplicate''"

function Itoa :: "nat \<Rightarrow> string" where
  "Itoa n =
     (if n < 10 then [''0123456789'' ! n]
      else Itoa (n div 10) @ [''0123456789'' ! (n mod 10)])"
  by pat_completeness auto
termination
  by (relation "measure id") auto

declare Itoa.simps [simp del]

text \<open>
  The loop of \<open>GenerateSlug\<close>; \<open>UpdateConversationSlug\<close> is the database operation, which
  answers with an error message or with the database after the update.
  \<^verbatim>\<open>
  slug := baseSlug
  for attempt := 0; attempt < 100; attempt++ {
      _, err = database.UpdateConversationSlug(ctx, conversationID, slug)
      if err == nil { return slug, nil }
      if strings.Contains(strings.ToLower(err.Error()), "unique constraint failed") || ... {
          slug = fmt.Sprintf("%s-%d", baseSlug, attempt+1)
          continue
      }
      return "", fmt.Errorf("failed to update conversation slug: %w", err)
  }
  return "", fmt.Errorf("failed to generate unique slug after 100 attempts")
  \<close>
\<close>

function slugAttempts :: "(string \<Rightarrow> string) \<Rightarrow> ('db \<Rightarrow> string \<Rightarrow> string \<Rightarrow> string + 'db) \<Rightarrow>
    string \<Rightarrow> string \<Rightarrow> nat \<Rightarrow> string \<Rightarrow> 'db \<Rightarrow> (string + string) \<times> 'db" where
  "slugAttempts unicode_lower UpdateConversationSlug conversationID baseSlug attempt slug database =
     (if attempt < 100 then
        (case UpdateConversationSlug database conversationID slug of
           Inr database' \<Rightarrow> (Inr slug, database')
         | Inl err \<Rightarrow>
             if isUniqueViolation unicode_lower err
             then slugAttempts unicode_lower UpdateConversationSlug conversationID baseSlug
                    (attempt + 1) (baseSlug @ ''-'' @ Itoa (attempt + 1)) database
             else (Inl (''failed to update conversation slug: '' @ err), database))
      else (Inl ''failed to generate unique slug after 100 attempts'', database))"
  by pat_completeness auto
termination
  by (relation "measure (\<lambda>(ul, upd, cid, base, attempt, slug, db). 100 - attempt)") auto

declare slugAttempts.simps [simp del]

definition GenerateSlug :: "(string \<Rightarrow> string) \<Rightarrow> LLMServiceProvider \<Rightarrow>
    ('db \<Rightarrow> string \<Rightarrow> string \<Rightarrow> string + 'db) \<Rightarrow> 'db \<Rightarrow> string \<Rightarrow> string \<Rightarrow> string \<Rightarrow>
    (string + string) \<times> 'db" where
  "GenerateSlug unicode_lower llmProvider UpdateConversationSlug database
       conversationID userMessage conversationModelID =
     (case generateSlugText unicode_lower llmProvider userMessage conversationModelID of
        Inl err \<Rightarrow> (Inl err, database)
      | Inr baseSlug \<Rightarrow>
          slugAttempts unicode_lower UpdateConversationSlug conversationID baseSlug 0 baseSlug
            database)"

text \<open>
  The slug tried at attempt \<open>k\<close>: the loop starts with \<open>slug := baseSlug\<close> and sets
  \<open>slug = fmt.Sprintf("%s-%d", baseSlug, attempt+1)\<close> before attempt \<open>attempt + 1\<close>.
\<close>

definition candidate :: "string \<Rightarrow> nat \<Rightarrow> string" where
  "candidate baseSlug k = (if k = 0 then baseSlug else baseSlug @ ''-'' @ Itoa k)"

text \<open>
  Modelled from the spec: the database package (\<open>db.CreateConversation\<close>,
  \<open>db.UpdateConversationSlug\<close>, \<open>db.ArchiveConversation\<close>, \<open>db.UnarchiveConversation\<close>,
  \<open>db.ListArchivedConversations\<close>, the append of a message) is not among the source
  files; only its tests are. The specification gives a conversation an id, an optional
  slug that is unique over the non-NULL values (any number of NULL slugs side by side),
  \<open>created_at\<close>, \<open>updated_at\<close> and the \<open>archived\<close> flag; appending a message advances
  \<open>updated_at\<close>, while changing the slug, archiving and unarchiving do not; archived
  conversations are listed by \<open>updated_at\<close>, latest first. The table is the list of its
  rows in the order of creation, times are seconds, and the messages of the errors are
  SQLite's.
\<close>

record Conversation =
  ConversationID :: string
  Slug :: "string option"
  CreatedAt :: int
  UpdatedAt :: int
  Archived :: bool

type_synonym conversations = "Conversation list"

definition CreateConversation :: "int \<Rightarrow> string \<Rightarrow> conversations \<Rightarrow> conversations" where
  "CreateConversation now conversationID database =
     database @ [\<lparr>ConversationID = conversationID, Slug = None, CreatedAt = now,
                   UpdatedAt = now, Archived = False\<rparr>]"

definition updateRow :: "(Conversation \<Rightarrow> Conversation) \<Rightarrow> conversations \<Rightarrow> string \<Rightarrow>
    string + conversations" where
  "updateRow change database conversationID =
     (if \<not> list_ex (\<lambda>c. ConversationID c = conversationID) database
      then Inl ''sql: no rows in result set''
      else Inr (map (\<lambda>c. if ConversationID c = conversationID then change c else c) database))"

definition UpdateConversationSlug :: "conversations \<Rightarrow> string \<Rightarrow> string \<Rightarrow> string + conversations" where
  "UpdateConversationSlug database conversationID slug =
     (if list_ex (\<lambda>c. ConversationID c \<noteq> conversationID \<and> Slug c = Some slug) database
      then Inl ''UNIQUE constraint failed: conversations.slug''
      else updateRow (\<lambda>c. c\<lparr>Slug := Some slug\<rparr>) database conversationID)"

definition ArchiveConversation :: "conversations \<Rightarrow> string \<Rightarrow> string + conversations" where
  "ArchiveConversation database conversationID =
     updateRow (\<lambda>c. c\<lparr>Archived := True\<rparr>) database conversationID"

definition UnarchiveConversation :: "conversations \<Rightarrow> string \<Rightarrow> string + conversations" where
  "UnarchiveConversation database conversationID =
     updateRow (\<lambda>c. c\<lparr>Archived := False\<rparr>) database conversationID"

definition UpdateConversationTimestamp :: "int \<Rightarrow> conversations \<Rightarrow> string \<Rightarrow> string + conversations" where
  "UpdateConversationTimestamp now database conversationID =
     updateRow (\<lambda>c. c\<lparr>UpdatedAt := now\<rparr>) database conversationID"

definition ListArchivedConversations :: "conversations \<Rightarrow> conversations" where
  "ListArchivedConversations database =
     sort_key (\<lambda>c. - UpdatedAt c) (filter Archived database)"

text \<open>The provider of the repository's tests: one service for every model, no model info.\<close>

definition MockLLMService :: "string \<Rightarrow> Service" where
  "MockLLMService ResponseText =
     (\<lambda>request. Inr \<lparr>Content = [\<lparr>Type = ContentTypeText, Text = ResponseText\<rparr>]\<rparr>)"

definition MockLLMProvider :: "Service \<Rightarrow> LLMServiceProvider" where
  "MockLLMProvider service =
     \<lparr>GetService = (\<lambda>modelID. Inr service),
      GetAvailableModels = [''mock''],
      GetModelInfo = (\<lambda>modelID. None)\<rparr>"

lemma slugAttempts_success:
  assumes "attempt < 100" and "upd database conversationID slug = Inr database'"
  shows "slugAttempts ul upd conversationID baseSlug attempt slug database = (Inr slug, database')"
  using assms by (subst slugAttempts.simps) simp

lemma slugAttempts_other_error:
  assumes "attempt < 100" and "upd database conversationID slug = Inl err"
    and "\<not> isUniqueViolation ul err"
  shows "slugAttempts ul upd conversationID baseSlug attempt slug database =
           (Inl (''failed to update conversation slug: '' @ err), database)"
  using assms by (subst slugAttempts.simps) simp

lemma slugAttempts_retry:
  assumes "attempt < 100" and "upd database conversationID slug = Inl err"
    and "isUniqueViolation ul err"
  shows "slugAttempts ul upd conversationID baseSlug attempt slug database =
           slugAttempts ul upd conversationID baseSlug (Suc attempt)
             (candidate baseSlug (Suc attempt)) database"
  using assms by (subst slugAttempts.simps) (simp add: candidate_def)

lemma slugAttempts_give_up:
  assumes "\<not> attempt < 100"
  shows "slugAttempts ul upd conversationID baseSlug attempt slug database =
           (Inl ''failed to generate unique slug after 100 attempts'', database)"
  using assms by (subst slugAttempts.simps) simp

text \<open>
  After \<open>n - a\<close> unique-constraint violations in a row, the loop stands at attempt \<open>n\<close>
  with the slug \<open>candidate baseSlug n\<close> and the database untouched.
\<close>

lemma slugAttempts_skip:
  assumes "a \<le> n" and "n \<le> 100"
    and "\<forall>k. a \<le> k \<and> k < n \<longrightarrow>
           (\<exists>err. upd database conversationID (candidate baseSlug k) = Inl err \<and>
                  isUniqueViolation ul err)"
  shows "slugAttempts ul upd conversationID baseSlug a (candidate baseSlug a) database =
           slugAttempts ul upd conversationID baseSlug n (candidate baseSlug n) database"
  using assms
proof (induction "n - a" arbitrary: a)
  case 0
  then show ?case by simp
next
  case (Suc d)
  then have lt: "a < n" and a100: "a < 100"
    by simp_all
  with Suc.prems obtain err where
    "upd database conversationID (candidate baseSlug a) = Inl err" "isUniqueViolation ul err"
    by auto
  with a100 have "slugAttempts ul upd conversationID baseSlug a (candidate baseSlug a) database =
      slugAttempts ul upd conversationID baseSlug (Suc a) (candidate baseSlug (Suc a)) database"
    by (rule slugAttempts_retry)
  also have "\<dots> = slugAttempts ul upd conversationID baseSlug n (candidate baseSlug n) database"
  proof (rule Suc.hyps(1))
    show "d = n - Suc a"
      using Suc.hyps(2) by simp
    show "Suc a \<le> n"
      using lt by simp
    show "n \<le> 100"
      by (rule Suc.prems(2))
    show "\<forall>k. Suc a \<le> k \<and> k < n \<longrightarrow>
           (\<exists>err. upd database conversationID (candidate baseSlug k) = Inl err \<and>
                  isUniqueViolation ul err)"
      using Suc.prems(3) by simp
  qed
  finally show ?case .
qed

lemma GenerateSlug_attempts:
  assumes "generateSlugText ul llmProvider userMessage conversationModelID = Inr baseSlug"
  shows "GenerateSlug ul llmProvider upd database conversationID userMessage conversationModelID =
           slugAttempts ul upd conversationID baseSlug 0 (candidate baseSlug 0) database"
  using assms by (simp add: GenerateSlug_def candidate_def)

lemma Itoa_digit: "n < 10 \<Longrightarrow> length (Itoa n) = 1"
  by (subst Itoa.simps) simp

lemma Itoa_two_digits: "n < 100 \<Longrightarrow> length (Itoa n) \<le> 2"
  by (subst Itoa.simps) (simp add: Itoa_digit)

lemma Itoa_100: "Itoa 100 = ''100''"
  by code_simp

lemma candidate_below_100:
  assumes "k < 100"
  shows "candidate ''x'' k \<noteq> ''x-100''"
proof (cases "k = 0")
  case True
  then show ?thesis by (simp add: candidate_def)
next
  case False
  have "length (Itoa k) \<le> 2"
    using assms by (rule Itoa_two_digits)
  then have "Itoa k \<noteq> ''100''"
    by auto
  with False show ?thesis
    by (simp add: candidate_def)
qed

lemma unique_violation_sqlite:
  "isUniqueViolation ul ''UNIQUE constraint failed: conversations.slug''"
  by code_simp

lemma generateSlugText_mock:
  "generateSlugText ul (MockLLMProvider (MockLLMService ''x'')) ''Test message'' ''test-model'' =
     Inr ''x''"
  by code_simp

text \<open>
  Claim C5, as stated, has the allocator go on up to 100 suffixes. The loop runs 100
  attempts in all and the first of them tries the bare candidate, so the last suffix it
  tries is 99: with every slug but \<open>x-100\<close> refused as a duplicate, the allocator gives
  up although the database would have taken the hundredth suffix.
\<close>

theorem GenerateSlug_hundredth_suffix_counterexample:
  "candidate ''x'' 100 = ''x-100'' \<and>
   (\<lambda>database conversationID slug.
       if slug = ''x-100'' then Inr (slug # database)
       else Inl ''UNIQUE constraint failed: conversations.slug'')
     ([] :: string list) ''c1'' (candidate ''x'' 100) = Inr [''x-100''] \<and>
   GenerateSlug (\<lambda>s. s) (MockLLMProvider (MockLLMService ''x''))
     (\<lambda>database conversationID slug.
        if slug = ''x-100'' then Inr (slug # database)
        else Inl ''UNIQUE constraint failed: conversations.slug'')
     ([] :: string list) ''c1'' ''Test message'' ''test-model'' =
     (Inl ''failed to generate unique slug after 100 attempts'', [])"
proof -
  let ?upd = "\<lambda>(database :: string list) (conversationID :: string) slug.
        if slug = ''x-100'' then Inr (slug # database)
        else Inl ''UNIQUE constraint failed: conversations.slug''"
  have c100: "candidate ''x'' 100 = ''x-100''"
    by (simp add: candidate_def Itoa_100)
  have "\<forall>k. 0 \<le> k \<and> k < 100 \<longrightarrow>
      (\<exists>err. ?upd [] ''c1'' (candidate ''x'' k) = Inl err \<and> isUniqueViolation (\<lambda>s. s) err)"
    using candidate_below_100 unique_violation_sqlite by simp
  then have "slugAttempts (\<lambda>s. s) ?upd ''c1'' ''x'' 0 (candidate ''x'' 0) [] =
      slugAttempts (\<lambda>s. s) ?upd ''c1'' ''x'' 100 (candidate ''x'' 100) []"
    by (intro slugAttempts_skip) simp_all
  also have "\<dots> = (Inl ''failed to generate unique slug after 100 attempts'', [])"
    by (rule slugAttempts_give_up) simp
  finally have "GenerateSlug (\<lambda>s. s) (MockLLMProvider (MockLLMService ''x'')) ?upd []
      ''c1'' ''Test message'' ''test-model'' =
      (Inl ''failed to generate unique slug after 100 attempts'', [])"
    by (simp add: GenerateSlug_attempts [OF generateSlugText_mock])
  with c100 show ?thesis
    by simp
qed

lemma slug_conflict_cascade:
  "(let provider = MockLLMProvider (MockLLMService ''test-slug'');
        db1 = CreateConversation 1 ''conv1'' [];
        (slug1, db1') = GenerateSlug ul provider UpdateConversationSlug db1
                          ''conv1'' ''Test message'' ''test-model'';
        db2 = CreateConversation 2 ''conv2'' db1';
        (slug2, db2') = GenerateSlug ul provider UpdateConversationSlug db2
                          ''conv2'' ''Test message'' ''test-model'';
        db3 = CreateConversation 3 ''conv3'' db2';
        (slug3, db3') = GenerateSlug ul provider UpdateConversationSlug db3
                          ''conv3'' ''Test message'' ''test-model''
    in (slug1, slug2, slug3, map (\<lambda>c. (ConversationID c, Slug c)) db3')) =
   (Inr ''test-slug'', Inr ''test-slug-1'', Inr ''test-slug-2'',
    [(''conv1'', Some ''test-slug''), (''conv2'', Some ''test-slug-1''),
     (''conv3'', Some ''test-slug-2'')])"
  by code_simp

lemma candidate_suffixes:
  "candidate baseSlug 0 = baseSlug \<and> candidate baseSlug 1 = baseSlug @ ''-1'' \<and>
   candidate baseSlug 2 = baseSlug @ ''-2'' \<and> candidate baseSlug 99 = baseSlug @ ''-99''"
proof -
  have "Itoa 1 = ''1''" "Itoa 2 = ''2''" "Itoa 99 = ''99''"
    by code_simp+
  then show ?thesis
    by (simp add: candidate_def)
qed

text \<open>
  Claim C5, amended: when persisting the candidate fails with a unique-constraint
  violation the allocator retries with candidate-1, candidate-2 and so on, up to
  candidate-99 (100 attempts in all, the bare candidate being the first), before it gives
  up with \<open>failed to generate unique slug after 100 attempts\<close>; on any other persistence
  error it stops at once and returns that error (wrapped as
  \<open>failed to update conversation slug: ...\<close>). Three conversations whose slug model
  answers \<open>test-slug\<close> get the slugs \<open>test-slug\<close>, \<open>test-slug-1\<close>, \<open>test-slug-2\<close> in the
  order of creation.
\<close>

theorem GenerateSlug_retries:
  assumes gen: "generateSlugText ul llmProvider userMessage conversationModelID = Inr baseSlug"
    and viol: "\<forall>k. k < n \<and> k < 100 \<longrightarrow>
      (\<exists>err. upd database conversationID (candidate baseSlug k) = Inl err \<and>
             isUniqueViolation ul err)"
  shows "(n < 100 \<and> upd database conversationID (candidate baseSlug n) = Inr database' \<longrightarrow>
            GenerateSlug ul llmProvider upd database conversationID userMessage conversationModelID =
              (Inr (candidate baseSlug n), database')) \<and>
         (n < 100 \<and> upd database conversationID (candidate baseSlug n) = Inl err \<and>
            \<not> isUniqueViolation ul err \<longrightarrow>
            GenerateSlug ul llmProvider upd database conversationID userMessage conversationModelID =
              (Inl (''failed to update conversation slug: '' @ err), database)) \<and>
         (100 \<le> n \<longrightarrow>
            GenerateSlug ul llmProvider upd database conversationID userMessage conversationModelID =
              (Inl ''failed to generate unique slug after 100 attempts'', database)) \<and>
         candidate baseSlug 0 = baseSlug \<and> candidate baseSlug 1 = baseSlug @ ''-1'' \<and>
         candidate baseSlug 2 = baseSlug @ ''-2'' \<and> candidate baseSlug 99 = baseSlug @ ''-99'' \<and>
         (let provider = MockLLMProvider (MockLLMService ''test-slug'');
              db1 = CreateConversation 1 ''conv1'' [];
              (slug1, db1') = GenerateSlug ul provider UpdateConversationSlug db1
                                ''conv1'' ''Test message'' ''test-model'';
              db2 = CreateConversation 2 ''conv2'' db1';
              (slug2, db2') = GenerateSlug ul provider UpdateConversationSlug db2
                                ''conv2'' ''Test message'' ''test-model'';
              db3 = CreateConversation 3 ''conv3'' db2';
              (slug3, db3') = GenerateSlug ul provider UpdateConversationSlug db3
                                ''conv3'' ''Test message'' ''test-model''
          in (slug1, slug2, slug3, map (\<lambda>c. (ConversationID c, Slug c)) db3')) =
         (Inr ''test-slug'', Inr ''test-slug-1'', Inr ''test-slug-2'',
          [(''conv1'', Some ''test-slug''), (''conv2'', Some ''test-slug-1''),
           (''conv3'', Some ''test-slug-2'')])"
proof -
  note start = GenerateSlug_attempts [OF gen, of upd database conversationID]
  have skip: "slugAttempts ul upd conversationID baseSlug 0 (candidate baseSlug 0) database =
      slugAttempts ul upd conversationID baseSlug m (candidate baseSlug m) database"
    if "m \<le> n" and "m \<le> 100" for m
    using that viol by (intro slugAttempts_skip) auto
  have a: "GenerateSlug ul llmProvider upd database conversationID userMessage conversationModelID =
              (Inr (candidate baseSlug n), database')"
    if "n < 100" and "upd database conversationID (candidate baseSlug n) = Inr database'"
    using that start skip [of n] by (simp add: slugAttempts_success)
  have b: "GenerateSlug ul llmProvider upd database conversationID userMessage conversationModelID =
              (Inl (''failed to update conversation slug: '' @ err), database)"
    if "n < 100" and "upd database conversationID (candidate baseSlug n) = Inl err"
      and "\<not> isUniqueViolation ul err"
    using that start skip [of n] by (simp add: slugAttempts_other_error)
  have c: "GenerateSlug ul llmProvider upd database conversationID userMessage conversationModelID =
              (Inl ''failed to generate unique slug after 100 attempts'', database)"
    if "100 \<le> n"
    using that start skip [of 100] by (simp add: slugAttempts_give_up)
  from a b c candidate_suffixes [of baseSlug] slug_conflict_cascade [of ul]
  show ?thesis
    by blast
qed

theorem GenerateSlug_retries_witness:
  "generateSlugText (\<lambda>s. s) (MockLLMProvider (MockLLMService ''test-slug''))
     ''Test message'' ''test-model'' = Inr ''test-slug'' \<and>
   UpdateConversationSlug
     [\<lparr>ConversationID = ''conv1'', Slug = Some ''test-slug'', CreatedAt = 1, UpdatedAt = 1,
        Archived = False\<rparr>,
      \<lparr>ConversationID = ''conv2'', Slug = None, CreatedAt = 2, UpdatedAt = 2,
        Archived = False\<rparr>] ''conv2''
     ''test-slug'' = Inl ''UNIQUE constraint failed: conversations.slug'' \<and>
   GenerateSlug (\<lambda>s. s) (MockLLMProvider (MockLLMService ''test-slug'')) UpdateConversationSlug
     [\<lparr>ConversationID = ''conv1'', Slug = Some ''test-slug'', CreatedAt = 1, UpdatedAt = 1,
        Archived = False\<rparr>,
      \<lparr>ConversationID = ''conv2'', Slug = None, CreatedAt = 2, UpdatedAt = 2,
        Archived = False\<rparr>] ''conv2'' ''Test message'' ''test-model'' =
     (Inr ''test-slug-1'',
      [\<lparr>ConversationID = ''conv1'', Slug = Some ''test-slug'', CreatedAt = 1, UpdatedAt = 1,
         Archived = False\<rparr>,
       \<lparr>ConversationID = ''conv2'', Slug = Some ''test-slug-1'', CreatedAt = 2, UpdatedAt = 2,
         Archived = False\<rparr>])"
proof -
  let ?db = "[\<lparr>ConversationID = ''conv1'', Slug = Some ''test-slug'', CreatedAt = 1, UpdatedAt = 1,
        Archived = False\<rparr>,
      \<lparr>ConversationID = ''conv2'', Slug = None, CreatedAt = 2, UpdatedAt = 2,
        Archived = False\<rparr>]"
  let ?db' = "[\<lparr>ConversationID = ''conv1'', Slug = Some ''test-slug'', CreatedAt = 1, UpdatedAt = 1,
         Archived = False\<rparr>,
       \<lparr>ConversationID = ''conv2'', Slug = Some ''test-slug-1'', CreatedAt = 2, UpdatedAt = 2,
         Archived = False\<rparr>]"
  have gen: "generateSlugText (\<lambda>s. s) (MockLLMProvider (MockLLMService ''test-slug''))
     ''Test message'' ''test-model'' = Inr ''test-slug''"
    by code_simp
  have first: "UpdateConversationSlug ?db ''conv2'' ''test-slug'' =
      Inl ''UNIQUE constraint failed: conversations.slug''"
    by (simp add: UpdateConversationSlug_def)
  have viol: "\<forall>k. k < 1 \<and> k < 100 \<longrightarrow>
      (\<exists>err. UpdateConversationSlug ?db ''conv2'' (candidate ''test-slug'' k) = Inl err \<and>
             isUniqueViolation (\<lambda>s. s) err)"
    using first unique_violation_sqlite by (simp add: candidate_def)
  have c1: "candidate ''test-slug'' 1 = ''test-slug-1''"
    using candidate_suffixes [of "''test-slug''"] by simp
  have second: "UpdateConversationSlug ?db ''conv2'' (candidate ''test-slug'' 1) = Inr ?db'"
    unfolding c1 by (simp add: UpdateConversationSlug_def updateRow_def)
  from GenerateSlug_retries
      [where upd = UpdateConversationSlug and database = ?db and conversationID = "''conv2''"
         and n = 1 and database' = ?db', OF gen viol]
    second c1
  have "GenerateSlug (\<lambda>s. s) (MockLLMProvider (MockLLMService ''test-slug''))
      UpdateConversationSlug ?db ''conv2'' ''Test message'' ''test-model'' =
      (Inr ''test-slug-1'', ?db')"
    by simp
  with gen first show ?thesis
    by simp
qed

subsection \<open>An empty slug is rejected\<close>

lemma callSlugLLM_empty:
  assumes "llmService (slugPrompt userMessage) = Inr response"
    and "firstText (Content response) \<noteq> []"
    and "Sanitize ul (TrimSpace (firstText (Content response))) = []"
  shows "callSlugLLM ul llmService userMessage =
           Inl ''generated slug is empty after sanitization''"
  using assms by (simp add: callSlugLLM_def Let_def)

lemma GenerateSlug_no_text:
  assumes "generateSlugText ul llmProvider userMessage conversationModelID = Inl err"
  shows "GenerateSlug ul llmProvider upd database conversationID userMessage conversationModelID =
           (Inl err, database)"
  using assms by (simp add: GenerateSlug_def)

lemma Sanitize_examples:
  "Sanitize ul ''@#$%^&*()'' = [] \<and>
   Sanitize ul ''   leading and trailing   '' = ''leading-and-trailing''"
  by code_simp

definition taggedProvider :: LLMServiceProvider where
  "taggedProvider =
     \<lparr>GetService =
        (\<lambda>modelID.
           if modelID = ''tagged'' then Inr (MockLLMService ''@#$%^&*()'')
           else if modelID = ''good'' then Inr (MockLLMService ''good slug'')
           else Inl ''unknown model''),
      GetAvailableModels = [''tagged''],
      GetModelInfo = (\<lambda>modelID. if modelID = ''tagged'' then Some \<lparr>Tags = ''slug''\<rparr> else None)\<rparr>"

text \<open>
  Claim C7, as stated, has slug generation fail with exactly
  \<open>generated slug is empty after sanitization\<close>, and persist nothing, for every response
  whose first non-empty text block sanitizes to the empty string. When the response comes
  from a model tagged \<open>slug\<close> (or \<open>slug-backup\<close>), \<open>generateSlugText\<close> only logs the
  error (\<open>Slug generation failed, trying next model\<close>) and goes on. \<open>taggedProvider\<close> has
  one model tagged \<open>slug\<close>, which answers \<open>@#$%^&*()\<close>: for a conversation with no model
  of its own \<open>GenerateSlug\<close> fails with \<open>no suitable model available for slug generation\<close>,
  and for a conversation whose own model answers \<open>good slug\<close> it succeeds and persists
  \<open>good-slug\<close>.
\<close>

theorem empty_slug_tagged_model_counterexample:
  "map_sum id (\<lambda>response. firstText (Content response))
     (MockLLMService ''@#$%^&*()'' (slugPrompt ''Test message'')) = Inr ''@#$%^&*()'' \<and>
   Sanitize (\<lambda>s. s) (TrimSpace ''@#$%^&*()'') = [] \<and>
   callSlugLLM (\<lambda>s. s) (MockLLMService ''@#$%^&*()'') ''Test message'' =
     Inl ''generated slug is empty after sanitization'' \<and>
   map_prod id (map (\<lambda>c. (ConversationID c, Slug c)))
     (GenerateSlug (\<lambda>s. s) taggedProvider UpdateConversationSlug
        [\<lparr>ConversationID = ''conv1'', Slug = None, CreatedAt = 1, UpdatedAt = 1,
           Archived = False\<rparr>] ''conv1'' ''Test message'' []) =
     (Inl ''no suitable model available for slug generation'', [(''conv1'', None)]) \<and>
   map_prod id (map (\<lambda>c. (ConversationID c, Slug c)))
     (GenerateSlug (\<lambda>s. s) taggedProvider UpdateConversationSlug
        [\<lparr>ConversationID = ''conv1'', Slug = None, CreatedAt = 1, UpdatedAt = 1,
           Archived = False\<rparr>] ''conv1'' ''Test message'' ''good'') =
     (Inr ''good-slug'', [(''conv1'', Some ''good-slug'')])"
  by code_simp

text \<open>
  Claim C7, amended: for every response whose first non-empty text block sanitizes to
  the empty string, the call that received it fails with exactly
  \<open>generated slug is empty after sanitization\<close>. \<open>GenerateSlug\<close> fails with exactly that
  error, with the database as it was, when the response came from the conversation's own
  model (the deterministic testing model, or the fallback reached after no tagged model
  gave a slug). When it came from a model tagged \<open>slug\<close> or \<open>slug-backup\<close> the error is
  dropped and the models after it are tried as if that model were not there. Whenever no
  slug text is produced, whatever the error, nothing is persisted.
  \<open>Sanitize("@#$%^&*()")\<close> is empty; \<open>Sanitize("   leading and trailing   ")\<close> is
  \<open>leading-and-trailing\<close>.
\<close>

theorem empty_slug_rejected:
  assumes "llmService (slugPrompt userMessage) = Inr response"
    and "firstText (Content response) \<noteq> []"
    and "Sanitize ul (TrimSpace (firstText (Content response))) = []"
  shows "callSlugLLM ul llmService userMessage =
           Inl ''generated slug is empty after sanitization'' \<and>
         (GetService llmProvider ''predictable'' = Inr llmService \<longrightarrow>
            GenerateSlug ul llmProvider upd database conversationID userMessage ''predictable'' =
              (Inl ''generated slug is empty after sanitization'', database)) \<and>
         (conversationModelID \<noteq> [] \<and> conversationModelID \<noteq> ''predictable'' \<and>
            tryTags ul llmProvider userMessage [''slug'', ''slug-backup''] = None \<and>
            GetService llmProvider conversationModelID = Inr llmService \<longrightarrow>
            GenerateSlug ul llmProvider upd database conversationID userMessage conversationModelID =
              (Inl ''generated slug is empty after sanitization'', database)) \<and>
         Sanitize ul ''@#$%^&*()'' = [] \<and>
         Sanitize ul ''   leading and trailing   '' = ''leading-and-trailing'' \<and>
         (GetModelInfo llmProvider modelID = Some info \<and> hasTag (Tags info) tag \<and>
            GetService llmProvider modelID = Inr llmService \<longrightarrow>
            tryModels ul llmProvider userMessage tag (modelID # modelIDs) =
              tryModels ul llmProvider userMessage tag modelIDs) \<and>
         (generateSlugText ul llmProvider userMessage conversationModelID = Inl err \<longrightarrow>
            GenerateSlug ul llmProvider upd database conversationID userMessage conversationModelID =
              (Inl err, database))"
proof -
  have call: "callSlugLLM ul llmService userMessage =
      Inl ''generated slug is empty after sanitization''"
    using assms by (rule callSlugLLM_empty)
  have p: "GenerateSlug ul llmProvider upd database conversationID userMessage ''predictable'' =
              (Inl ''generated slug is empty after sanitization'', database)"
    if "GetService llmProvider ''predictable'' = Inr llmService"
  proof (rule GenerateSlug_no_text)
    show "generateSlugText ul llmProvider userMessage ''predictable'' =
        Inl ''generated slug is empty after sanitization''"
      using that call by (simp add: generateSlugText_def)
  qed
  have f: "GenerateSlug ul llmProvider upd database conversationID userMessage conversationModelID =
              (Inl ''generated slug is empty after sanitization'', database)"
    if "conversationModelID \<noteq> []" and "conversationModelID \<noteq> ''predictable''"
      and "tryTags ul llmProvider userMessage [''slug'', ''slug-backup''] = None"
      and "GetService llmProvider conversationModelID = Inr llmService"
  proof (rule GenerateSlug_no_text)
    show "generateSlugText ul llmProvider userMessage conversationModelID =
        Inl ''generated slug is empty after sanitization''"
      using that call
      by (simp add: generateSlugText_def taggedModels_def fallbackModel_def del: tryTags.simps)
  qed
  have t: "tryModels ul llmProvider userMessage tag (modelID # modelIDs) =
              tryModels ul llmProvider userMessage tag modelIDs"
    if "GetModelInfo llmProvider modelID = Some info" and "hasTag (Tags info) tag"
      and "GetService llmProvider modelID = Inr llmService"
    using that call by simp
  have g: "GenerateSlug ul llmProvider upd database conversationID userMessage conversationModelID =
              (Inl err, database)"
    if "generateSlugText ul llmProvider userMessage conversationModelID = Inl err"
    using that by (rule GenerateSlug_no_text)
  from call p f t g Sanitize_examples [of ul] show ?thesis
    by blast
qed

theorem empty_slug_rejected_witness:
  "firstText (Content \<lparr>Content = [\<lparr>Type = ContentTypeThinking, Text = ''hm''\<rparr>,
                                    \<lparr>Type = ContentTypeText, Text = ''@#$%^&*()''\<rparr>]\<rparr>) =
     ''@#$%^&*()'' \<and>
   Sanitize (\<lambda>s. s) (TrimSpace ''@#$%^&*()'') = [] \<and>
   callSlugLLM (\<lambda>s. s)
     (\<lambda>request. Inr \<lparr>Content = [\<lparr>Type = ContentTypeThinking, Text = ''hm''\<rparr>,
                                  \<lparr>Type = ContentTypeText, Text = ''@#$%^&*()''\<rparr>]\<rparr>)
     ''Test message'' = Inl ''generated slug is empty after sanitization'' \<and>
   generateSlugText (\<lambda>s. s) (MockLLMProvider (MockLLMService ''@#$%^&*()''))
     ''Test message'' ''test-model'' = Inl ''generated slug is empty after sanitization'' \<and>
   callSlugLLM (\<lambda>s. s) (MockLLMService ''   leading and trailing   '') ''Test message'' =
     Inr ''leading-and-trailing'' \<and>
   tryModels (\<lambda>s. s) taggedProvider ''Test message'' ''slug'' [''tagged''] = None"
proof -
  let ?r = "\<lparr>Content = [\<lparr>Type = ContentTypeThinking, Text = ''hm''\<rparr>,
                          \<lparr>Type = ContentTypeText, Text = ''@#$%^&*()''\<rparr>]\<rparr>"
  let ?t = "\<lparr>Content = [\<lparr>Type = ContentTypeText, Text = ''@#$%^&*()''\<rparr>]\<rparr>"
  have ft: "firstText (Content ?r) = ''@#$%^&*()''"
    by simp
  have ne: "firstText (Content ?r) \<noteq> []"
    by simp
  have empty: "Sanitize (\<lambda>s. s) (TrimSpace ''@#$%^&*()'') = []"
    by code_simp
  then have empty': "Sanitize (\<lambda>s. s) (TrimSpace (firstText (Content ?r))) = []"
    by (simp only: ft)
  have gen: "generateSlugText (\<lambda>s. s) (MockLLMProvider (MockLLMService ''@#$%^&*()''))
     ''Test message'' ''test-model'' = Inl ''generated slug is empty after sanitization''"
    by code_simp
  have ok: "callSlugLLM (\<lambda>s. s) (MockLLMService ''   leading and trailing   '') ''Test message'' =
     Inr ''leading-and-trailing''"
    by code_simp
  from empty_slug_rejected [where llmService = "\<lambda>request. Inr ?r" and userMessage = "''Test message''"
      and response = ?r and ul = "\<lambda>s. s", OF refl ne empty']
  have w: "callSlugLLM (\<lambda>s. s) (\<lambda>request. Inr ?r) ''Test message'' =
      Inl ''generated slug is empty after sanitization''"
    by (rule conjunct1)
  have svc: "MockLLMService ''@#$%^&*()'' (slugPrompt ''Test message'') = Inr ?t"
    by (simp add: MockLLMService_def)
  have ne2: "firstText (Content ?t) \<noteq> []"
    by simp
  have ft2: "firstText (Content ?t) = ''@#$%^&*()''"
    by simp
  have empty2: "Sanitize (\<lambda>s. s) (TrimSpace (firstText (Content ?t))) = []"
    using empty by (simp only: ft2)
  have info: "GetModelInfo taggedProvider ''tagged'' = Some \<lparr>Tags = ''slug''\<rparr>"
    by (simp add: taggedProvider_def)
  have tagged: "hasTag (Tags \<lparr>Tags = ''slug''\<rparr>) ''slug''"
    by code_simp
  have get: "GetService taggedProvider ''tagged'' = Inr (MockLLMService ''@#$%^&*()'')"
    by (simp add: taggedProvider_def)
  note inst = empty_slug_rejected [where llmService = "MockLLMService ''@#$%^&*()''"
      and userMessage = "''Test message''" and response = ?t and ul = "\<lambda>s. s"
      and llmProvider = taggedProvider and modelID = "''tagged''" and info = "\<lparr>Tags = ''slug''\<rparr>"
      and tag = "''slug''" and modelIDs = "[]", OF svc ne2 empty2]
  note next_model = inst [THEN conjunct2, THEN conjunct2, THEN conjunct2, THEN conjunct2,
      THEN conjunct2, THEN conjunct1, THEN mp]
  have "tryModels (\<lambda>s. s) taggedProvider ''Test message'' ''slug'' [''tagged''] =
      tryModels (\<lambda>s. s) taggedProvider ''Test message'' ''slug'' []"
    by (rule next_model) (intro conjI info tagged get)
  then have skip: "tryModels (\<lambda>s. s) taggedProvider ''Test message'' ''slug'' [''tagged''] = None"
    by simp
  show ?thesis
    by (intro conjI ft empty w gen ok skip)
qed

section \<open>The navigate action and port 80\<close>

text \<open>
  \<open>isPort80\<close> reads the scheme and the port of \<open>url.Parse(urlStr)\<close>. \<open>url.Parse\<close>
  belongs to Go's standard library; it is the parameter \<open>Parse\<close> here, which answers with
  an error message or with a URL, and nothing is assumed about it. Of the URL only the
  fields \<open>Scheme\<close> and \<open>Host\<close> are read.
\<close>

record URL =
  Scheme :: string
  Host :: string

text \<open>
  \<open>URL.Port()\<close> of the standard library: the part of \<open>Host\<close> after its last colon when
  that part is made of decimal digits only (it may be empty), the empty string otherwise.
  \<^verbatim>\<open>
  colon := strings.LastIndexByte(host, ':')
  if colon != -1 && validOptionalPort(host[colon:]) { host, port = host[:colon], host[colon+1:] }
  \<close>
\<close>

definition isDigit :: "char \<Rightarrow> bool" where
  "isDigit b \<longleftrightarrow> CHR ''0'' \<le> b \<and> b \<le> CHR ''9''"

definition validOptionalPort :: "string \<Rightarrow> bool" where
  "validOptionalPort port =
     (case port of
        [] \<Rightarrow> True
      | c # digits \<Rightarrow> c = CHR '':'' \<and> list_all isDigit digits)"

definition afterLastColon :: "string \<Rightarrow> string option" where
  "afterLastColon host =
     (if CHR '':'' \<in> set host
      then Some (rev (takeWhile (\<lambda>c. c \<noteq> CHR '':'') (rev host)))
      else None)"

definition Port :: "URL \<Rightarrow> string" where
  "Port u =
     (case afterLastColon (Host u) of
        None \<Rightarrow> []
      | Some digits \<Rightarrow> if validOptionalPort (CHR '':'' # digits) then digits else [])"

text \<open>
  \<^verbatim>\<open>
  parsedURL, err := url.Parse(urlStr)
  if err != nil { return false }
  port := parsedURL.Port()
  return port == "80" || (port == "" && parsedURL.Scheme == "http")
  \<close>
\<close>

definition isPort80 :: "(string \<Rightarrow> string + URL) \<Rightarrow> string \<Rightarrow> bool" where
  "isPort80 Parse urlStr =
     (case Parse urlStr of
        Inl err \<Rightarrow> False
      | Inr parsedURL \<Rightarrow>
          (let port = Port parsedURL
           in port = ''80'' \<or> (port = [] \<and> Scheme parsedURL = ''http'')))"

text \<open>
  \<open>navigateRun\<close> decodes its JSON input (\<open>Unmarshal\<close>, an error message or the input),
  refuses a URL on port 80, and only then turns to the browser. All that follows the
  check (getting the browser context, navigating, waiting, collecting downloads) is the
  parameter \<open>browse\<close>, which may change the state of the browser.
\<close>

record navigateInput =
  URL :: string
  Timeout :: string

datatype ToolOut = ErrorToolOut string | ContentToolOut string

definition navigateRun :: "(string \<Rightarrow> string + URL) \<Rightarrow> (string \<Rightarrow> string + navigateInput) \<Rightarrow>
    (navigateInput \<Rightarrow> 'browser \<Rightarrow> ToolOut \<times> 'browser) \<Rightarrow> 'browser \<Rightarrow> string \<Rightarrow>
    ToolOut \<times> 'browser" where
  "navigateRun Parse Unmarshal browse b m =
     (case Unmarshal m of
        Inl err \<Rightarrow> (ErrorToolOut (''invalid input: '' @ err), b)
      | Inr input \<Rightarrow>
          if isPort80 Parse (URL input)
          then (ErrorToolOut
                  (''port 80 is not the port you'' @ [CHR 0x27] @
                   ''re looking for--port 80 is the main sketch server''), b)
          else browse input b)"

text \<open>
  A parser to try \<open>isPort80\<close> with. It follows \<open>url.Parse\<close> for the scheme and the host
  of a URL that has no percent sign and no bracket and at most one colon in its host, and
  it refuses every other URL (they are not needed here); the texts of its errors are
  shortened. As \<open>url.Parse\<close> does, it drops the fragment after \<open>#\<close>, refuses a control
  character, takes the scheme (\<open>getScheme\<close>: the letters, digits, \<open>+\<close>, \<open>-\<close> and \<open>.\<close>
  before the first colon, lower-cased), drops the query after \<open>?\<close>, and after \<open>//\<close> reads
  the authority up to the next slash: the host is what follows the last \<open>@\<close>; a port that
  is not made of digits, a byte that a host may not hold and a byte that user info may not
  hold are errors.
\<close>

fun getScheme :: "nat \<Rightarrow> string \<Rightarrow> string \<Rightarrow> string + (string \<times> string)" where
  "getScheme i rawURL [] = Inr ([], rawURL)"
| "getScheme i rawURL (c # cs) =
     (if (CHR ''a'' \<le> c \<and> c \<le> CHR ''z'') \<or> (CHR ''A'' \<le> c \<and> c \<le> CHR ''Z'')
      then getScheme (Suc i) rawURL cs
      else if (CHR ''0'' \<le> c \<and> c \<le> CHR ''9'') \<or> c = CHR ''+'' \<or> c = CHR ''-'' \<or> c = CHR ''.''
      then (if i = 0 then Inr ([], rawURL) else getScheme (Suc i) rawURL cs)
      else if c = CHR '':''
      then (if i = 0 then Inl ''missing protocol scheme'' else Inr (take i rawURL, cs))
      else Inr ([], rawURL))"

definition isCTL :: "char \<Rightarrow> bool" where
  "isCTL b \<longleftrightarrow> b < CHR 0x20 \<or> b = CHR 0x7F"

definition isAlnum :: "char \<Rightarrow> bool" where
  "isAlnum c \<longleftrightarrow>
     (CHR ''a'' \<le> c \<and> c \<le> CHR ''z'') \<or> (CHR ''A'' \<le> c \<and> c \<le> CHR ''Z'') \<or>
     (CHR ''0'' \<le> c \<and> c \<le> CHR ''9'')"

definition hostByteOK :: "char \<Rightarrow> bool" where
  "hostByteOK c \<longleftrightarrow>
     \<not> isASCII c \<or> isAlnum c \<or> c \<in> set (''!$&()*+,;=:<>-_.~'' @ [CHR 0x27, CHR 0x22])"

definition userinfoByteOK :: "char \<Rightarrow> bool" where
  "userinfoByteOK c \<longleftrightarrow> isAlnum c \<or> c \<in> set (''-._:~!$&()*+,;=@'' @ [CHR 0x27])"

definition parseAuthority :: "string \<Rightarrow> string + string" where
  "parseAuthority authority =
     (let host = rev (takeWhile (\<lambda>c. c \<noteq> CHR ''@'') (rev authority));
          userinfo = take (length authority - length host - 1) authority
      in if 1 < length (filter (\<lambda>c. c = CHR '':'') host)
         then Inl ''not followed: two colons in the host''
         else if \<not> validOptionalPort (drop (length (takeWhile (\<lambda>c. c \<noteq> CHR '':'') host)) host)
         then Inl ''invalid port after host''
         else if \<not> list_all hostByteOK host
         then Inl ''invalid character in host name''
         else if \<not> list_all userinfoByteOK userinfo
         then Inl ''net/url: invalid userinfo''
         else Inr host)"

definition ParseSchemeHost :: "string \<Rightarrow> string + URL" where
  "ParseSchemeHost rawURL =
     (let u = takeWhile (\<lambda>c. c \<noteq> CHR ''#'') rawURL
      in if list_ex (\<lambda>c. c \<in> set ''%[]'') rawURL
         then Inl ''not followed: percent sign or bracket''
         else if list_ex isCTL u
         then Inl ''net/url: invalid control character in URL''
         else
           (case getScheme 0 u u of
              Inl err \<Rightarrow> Inl err
            | Inr (scheme, afterScheme) \<Rightarrow>
                (let rest = takeWhile (\<lambda>c. c \<noteq> CHR ''?'') afterScheme
                 in if take 2 rest = ''//'' \<and> (scheme \<noteq> [] \<or> take 3 rest \<noteq> ''///'')
                    then
                      (case parseAuthority (takeWhile (\<lambda>c. c \<noteq> CHR ''/'') (drop 2 rest)) of
                         Inl err \<Rightarrow> Inl err
                       | Inr host \<Rightarrow> Inr \<lparr>Scheme = map toLowerASCII scheme, Host = host\<rparr>)
                    else if scheme = [] \<and> take 1 rest \<noteq> ''/'' \<and>
                            CHR '':'' \<in> set (takeWhile (\<lambda>c. c \<noteq> CHR ''/'') rest)
                    then Inl ''first path segment in URL cannot contain colon''
                    else Inr \<lparr>Scheme = map toLowerASCII scheme, Host = []\<rparr>)))"

lemma ParseSchemeHost_refuses:
  "ParseSchemeHost ''http://example.com:abc'' = Inl ''invalid port after host'' \<and>
   ParseSchemeHost ''http://exa mple.com'' = Inl ''invalid character in host name'' \<and>
   ParseSchemeHost '':80'' = Inl ''missing protocol scheme'' \<and>
   ParseSchemeHost ''http://user:pw@example.com:80/a?b#c'' =
     Inr \<lparr>Scheme = ''http'', Host = ''example.com:80''\<rparr>"
  by code_simp

lemma isPort80_iff:
  "isPort80 Parse urlStr \<longleftrightarrow>
     (\<exists>u. Parse urlStr = Inr u \<and> (Port u = ''80'' \<or> (Port u = [] \<and> Scheme u = ''http'')))"
  by (cases "Parse urlStr") (simp_all add: isPort80_def Let_def)

lemma isPort80_examples:
  "\<not> isPort80 ParseSchemeHost ''https://example.com:443'' \<and>
   isPort80 ParseSchemeHost ''ftp://example.com:80'' \<and>
   map (isPort80 ParseSchemeHost)
     [''http://example.com:80'', ''http://example.com'', ''https://example.com:80'',
      ''http://example.com:8080'', ''https://example.com'', ''invalid-url''] =
     [True, True, True, False, False, False]"
  by code_simp

lemma Port_examples:
  "Port \<lparr>Scheme = ''https'', Host = ''example.com:443''\<rparr> = ''443'' \<and>
   Port \<lparr>Scheme = ''ftp'', Host = ''example.com:80''\<rparr> = ''80''"
  by code_simp

text \<open>
  Claim C8: \<open>isPort80(url)\<close> holds exactly when the URL parses and either has the explicit
  port \<open>80\<close> or has no explicit port and the scheme \<open>http\<close>; the navigate action answers
  such a URL with an error tool result without getting to the browser (whatever the
  browser part would do, and with the browser's state as it was), and hands a URL that
  does not parse on to the browser. \<open>https://example.com:443\<close> is not on port 80,
  \<open>ftp://example.com:80\<close> is: the explicit port wins over the scheme.
\<close>

theorem navigate_rejects_port80:
  "(isPort80 Parse urlStr \<longleftrightarrow>
      (\<exists>u. Parse urlStr = Inr u \<and> (Port u = ''80'' \<or> (Port u = [] \<and> Scheme u = ''http'')))) \<and>
   (Unmarshal m = Inr input \<and> isPort80 Parse (URL input) \<longrightarrow>
      navigateRun Parse Unmarshal browse b m =
        (ErrorToolOut
           (''port 80 is not the port you'' @ [CHR 0x27] @
            ''re looking for--port 80 is the main sketch server''), b)) \<and>
   (Unmarshal m = Inr input \<and> Parse (URL input) = Inl err \<longrightarrow>
      navigateRun Parse Unmarshal browse b m = browse input b) \<and>
   (Parse ''https://example.com:443'' =
        Inr \<lparr>Scheme = ''https'', Host = ''example.com:443''\<rparr> \<longrightarrow>
      \<not> isPort80 Parse ''https://example.com:443'') \<and>
   (Parse ''ftp://example.com:80'' = Inr \<lparr>Scheme = ''ftp'', Host = ''example.com:80''\<rparr> \<longrightarrow>
      isPort80 Parse ''ftp://example.com:80'') \<and>
   \<not> isPort80 ParseSchemeHost ''https://example.com:443'' \<and>
   isPort80 ParseSchemeHost ''ftp://example.com:80''"
proof (intro conjI impI)
  show "isPort80 Parse urlStr \<longleftrightarrow>
      (\<exists>u. Parse urlStr = Inr u \<and> (Port u = ''80'' \<or> (Port u = [] \<and> Scheme u = ''http'')))"
    by (rule isPort80_iff)
next
  assume "Unmarshal m = Inr input \<and> isPort80 Parse (URL input)"
  then show "navigateRun Parse Unmarshal browse b m =
        (ErrorToolOut
           (''port 80 is not the port you'' @ [CHR 0x27] @
            ''re looking for--port 80 is the main sketch server''), b)"
    by (simp add: navigateRun_def)
next
  assume "Unmarshal m = Inr input \<and> Parse (URL input) = Inl err"
  then show "navigateRun Parse Unmarshal browse b m = browse input b"
    by (simp add: navigateRun_def isPort80_def)
next
  assume "Parse ''https://example.com:443'' =
        Inr \<lparr>Scheme = ''https'', Host = ''example.com:443''\<rparr>"
  then show "\<not> isPort80 Parse ''https://example.com:443''"
    using Port_examples by (simp add: isPort80_def)
next
  assume "Parse ''ftp://example.com:80'' = Inr \<lparr>Scheme = ''ftp'', Host = ''example.com:80''\<rparr>"
  then show "isPort80 Parse ''ftp://example.com:80''"
    using Port_examples by (simp add: isPort80_def)
next
  show "\<not> isPort80 ParseSchemeHost ''https://example.com:443''"
    using isPort80_examples by (rule conjunct1)
next
  show "isPort80 ParseSchemeHost ''ftp://example.com:80''"
    using isPort80_examples by simp
qed

theorem navigate_rejects_port80_witness:
  "ParseSchemeHost ''https://example.com:443'' =
     Inr \<lparr>Scheme = ''https'', Host = ''example.com:443''\<rparr> \<and>
   ParseSchemeHost ''ftp://example.com:80'' = Inr \<lparr>Scheme = ''ftp'', Host = ''example.com:80''\<rparr> \<and>
   \<not> isPort80 ParseSchemeHost ''https://example.com:443'' \<and>
   isPort80 ParseSchemeHost ''ftp://example.com:80'' \<and>
   navigateRun ParseSchemeHost (\<lambda>m. Inr \<lparr>URL = m, Timeout = []\<rparr>)
     (\<lambda>input b. (ContentToolOut ''done'', Suc b)) (0 :: nat) ''ftp://example.com:80'' =
     (ErrorToolOut
        (''port 80 is not the port you'' @ [CHR 0x27] @
         ''re looking for--port 80 is the main sketch server''), 0)"
proof -
  have p1: "ParseSchemeHost ''https://example.com:443'' =
     Inr \<lparr>Scheme = ''https'', Host = ''example.com:443''\<rparr>"
    by code_simp
  have p2: "ParseSchemeHost ''ftp://example.com:80'' =
      Inr \<lparr>Scheme = ''ftp'', Host = ''example.com:80''\<rparr>"
    by code_simp
  note inst = navigate_rejects_port80
    [where Parse = ParseSchemeHost and Unmarshal = "\<lambda>m. Inr \<lparr>URL = m, Timeout = []\<rparr>"
       and m = "''ftp://example.com:80''" and input = "\<lparr>URL = ''ftp://example.com:80'', Timeout = []\<rparr>"
       and browse = "\<lambda>input b. (ContentToolOut ''done'', Suc b)" and b = "0 :: nat"]
  from inst p1 have a: "\<not> isPort80 ParseSchemeHost ''https://example.com:443''"
    by blast
  from inst p2 have b: "isPort80 ParseSchemeHost ''ftp://example.com:80''"
    by blast
  from inst b have c: "navigateRun ParseSchemeHost (\<lambda>m. Inr \<lparr>URL = m, Timeout = []\<rparr>)
     (\<lambda>input b. (ContentToolOut ''done'', Suc b)) (0 :: nat) ''ftp://example.com:80'' =
     (ErrorToolOut
        (''port 80 is not the port you'' @ [CHR 0x27] @
         ''re looking for--port 80 is the main sketch server''), 0)"
    by simp
  show ?thesis
    by (intro conjI p1 p2 a b c)
qed

section \<open>Archiving and the order of activity\<close>

text \<open>Archiving a list of conversations, one call after the other.\<close>

fun archiveAll :: "string list \<Rightarrow> conversations \<Rightarrow> string + conversations" where
  "archiveAll [] database = Inr database"
| "archiveAll (conversationID # ids) database =
     (case ArchiveConversation database conversationID of
        Inl err \<Rightarrow> Inl err
      | Inr database' \<Rightarrow> archiveAll ids database')"

lemma updateRow_map:
  assumes "updateRow change database conversationID = Inr database'"
  shows "database' = map (\<lambda>c. if ConversationID c = conversationID then change c else c) database"
  using assms by (simp add: updateRow_def split: if_splits)

lemma updateRow_UpdatedAt:
  assumes "updateRow change database conversationID = Inr database'"
    and "\<And>c. UpdatedAt (change c) = UpdatedAt c"
  shows "map UpdatedAt database' = map UpdatedAt database"
  unfolding updateRow_map [OF assms(1)] using assms(2) by (induction database) simp_all

lemma in_set_mapE:
  assumes "c \<in> set (map f database)"
  obtains c0 where "c0 \<in> set database" "c = f c0"
  using assms by auto

lemma updateRow_changed:
  assumes "updateRow change database conversationID = Inr database'"
    and mem: "c \<in> set database'" and cid: "ConversationID c = conversationID"
  shows "\<exists>c0 \<in> set database. c = change c0"
proof -
  have "database' =
      map (\<lambda>c. if ConversationID c = conversationID then change c else c) database"
    using assms(1) by (rule updateRow_map)
  with mem obtain c0 where c0: "c0 \<in> set database"
    and c: "c = (if ConversationID c0 = conversationID then change c0 else c0)"
    by (auto elim: in_set_mapE)
  show ?thesis
  proof (cases "ConversationID c0 = conversationID")
    case True
    with c have "c = change c0"
      by (simp only: simp_thms if_True)
    with c0 show ?thesis
      by blast
  next
    case False
    with c have "c = c0"
      by (simp only: if_False)
    with cid have "ConversationID c0 = conversationID"
      by (simp only:)
    with False show ?thesis
      by contradiction
  qed
qed

lemma archiveAll_map:
  assumes "archiveAll ids database = Inr database'"
  shows "database' =
           map (\<lambda>c. if ConversationID c \<in> set ids then c\<lparr>Archived := True\<rparr> else c) database"
  using assms
proof (induction ids arbitrary: database)
  case Nil
  then show ?case by simp
next
  case (Cons i ids)
  from Cons.prems obtain mid where one: "ArchiveConversation database i = Inr mid"
    and rest: "archiveAll ids mid = Inr database'"
    by (auto split: sum.splits)
  from one have mid: "mid = map (\<lambda>c. if ConversationID c = i then c\<lparr>Archived := True\<rparr> else c) database"
    unfolding ArchiveConversation_def by (rule updateRow_map)
  from Cons.IH [OF rest] have
    "database' = map (\<lambda>c. if ConversationID c \<in> set ids then c\<lparr>Archived := True\<rparr> else c) mid" .
  moreover have
    "map (\<lambda>c. if ConversationID c \<in> set ids then c\<lparr>Archived := True\<rparr> else c)
       (map (\<lambda>c. if ConversationID c = i then c\<lparr>Archived := True\<rparr> else c) database) =
     map (\<lambda>c. if ConversationID c \<in> set (i # ids) then c\<lparr>Archived := True\<rparr> else c) database"
    by (induction database) simp_all
  ultimately show ?case
    unfolding mid by simp
qed

lemma archiveAll_order_free:
  assumes "archiveAll ids database = Inr d1" and "archiveAll ids' database = Inr d2"
    and "set ids = set ids'"
  shows "d1 = d2"
  using archiveAll_map [OF assms(1)] archiveAll_map [OF assms(2)] assms(3) by simp

lemma archive_scenario:
  "map_sum id (\<lambda>database. map ConversationID (ListArchivedConversations database))
     (archiveAll [''C'', ''B'', ''A'']
        [\<lparr>ConversationID = ''A'', Slug = Some ''conv-oldest-activity'', CreatedAt = 0,
           UpdatedAt = 36000, Archived = False\<rparr>,
         \<lparr>ConversationID = ''B'', Slug = Some ''conv-newest-activity'', CreatedAt = 0,
           UpdatedAt = 50400, Archived = False\<rparr>,
         \<lparr>ConversationID = ''C'', Slug = Some ''conv-middle-activity'', CreatedAt = 0,
           UpdatedAt = 43200, Archived = False\<rparr>]) =
     Inr [''B'', ''C'', ''A'']"
  by code_simp

text \<open>
  Claim C9: archiving, unarchiving and changing the slug of a conversation leave
  \<open>updated_at\<close> of every conversation as it was (only the append of a message sets it), so
  the list of archived conversations, which is ordered by \<open>updated_at\<close>, is the same
  whatever the order in which the conversations were archived. Conversations A, B, C last
  active at 10:00, 14:00 and 12:00 and archived in the order C, B, A are listed B, C, A.
\<close>

theorem archive_keeps_updated_at:
  "(ArchiveConversation database conversationID = Inr database' \<longrightarrow>
      map UpdatedAt database' = map UpdatedAt database) \<and>
   (UnarchiveConversation database conversationID = Inr database' \<longrightarrow>
      map UpdatedAt database' = map UpdatedAt database) \<and>
   (UpdateConversationSlug database conversationID s = Inr database' \<longrightarrow>
      map UpdatedAt database' = map UpdatedAt database) \<and>
   (UpdateConversationTimestamp now database conversationID = Inr database' \<longrightarrow>
      (\<forall>c \<in> set database'. ConversationID c = conversationID \<longrightarrow> UpdatedAt c = now)) \<and>
   (archiveAll ids database = Inr d1 \<and> archiveAll ids' database = Inr d2 \<and> set ids = set ids' \<longrightarrow>
      map UpdatedAt d1 = map UpdatedAt database \<and>
      ListArchivedConversations d1 = ListArchivedConversations d2) \<and>
   sorted (map (\<lambda>c. - UpdatedAt c) (ListArchivedConversations database)) \<and>
   map_sum id (\<lambda>database. map ConversationID (ListArchivedConversations database))
     (archiveAll [''C'', ''B'', ''A'']
        [\<lparr>ConversationID = ''A'', Slug = Some ''conv-oldest-activity'', CreatedAt = 0,
           UpdatedAt = 36000, Archived = False\<rparr>,
         \<lparr>ConversationID = ''B'', Slug = Some ''conv-newest-activity'', CreatedAt = 0,
           UpdatedAt = 50400, Archived = False\<rparr>,
         \<lparr>ConversationID = ''C'', Slug = Some ''conv-middle-activity'', CreatedAt = 0,
           UpdatedAt = 43200, Archived = False\<rparr>]) =
     Inr [''B'', ''C'', ''A'']"
proof (intro conjI impI)
  assume "ArchiveConversation database conversationID = Inr database'"
  then show "map UpdatedAt database' = map UpdatedAt database"
    unfolding ArchiveConversation_def by (rule updateRow_UpdatedAt) simp
next
  assume "UnarchiveConversation database conversationID = Inr database'"
  then show "map UpdatedAt database' = map UpdatedAt database"
    unfolding UnarchiveConversation_def by (rule updateRow_UpdatedAt) simp
next
  assume "UpdateConversationSlug database conversationID s = Inr database'"
  then have "updateRow (\<lambda>c. c\<lparr>Slug := Some s\<rparr>) database conversationID = Inr database'"
    by (simp add: UpdateConversationSlug_def split: if_splits)
  then show "map UpdatedAt database' = map UpdatedAt database"
    by (rule updateRow_UpdatedAt) simp
next
  assume "UpdateConversationTimestamp now database conversationID = Inr database'"
  then have run: "updateRow (\<lambda>c. c\<lparr>UpdatedAt := now\<rparr>) database conversationID = Inr database'"
    by (simp only: UpdateConversationTimestamp_def)
  show "\<forall>c \<in> set database'. ConversationID c = conversationID \<longrightarrow> UpdatedAt c = now"
  proof (intro ballI impI)
    fix c assume "c \<in> set database'" and "ConversationID c = conversationID"
    with run have "\<exists>c0 \<in> set database. c = c0\<lparr>UpdatedAt := now\<rparr>"
      by (rule updateRow_changed)
    then obtain c0 where "c = c0\<lparr>UpdatedAt := now\<rparr>"
      by blast
    then show "UpdatedAt c = now"
      by simp
  qed
next
  assume h: "archiveAll ids database = Inr d1 \<and> archiveAll ids' database = Inr d2 \<and>
      set ids = set ids'"
  then have "d1 = map (\<lambda>c. if ConversationID c \<in> set ids then c\<lparr>Archived := True\<rparr> else c) database"
    by (intro archiveAll_map) simp
  moreover have "map UpdatedAt
      (map (\<lambda>c. if ConversationID c \<in> set ids then c\<lparr>Archived := True\<rparr> else c) database) =
      map UpdatedAt database"
    by (induction database) simp_all
  ultimately show "map UpdatedAt d1 = map UpdatedAt database"
    by simp
  from h have "d1 = d2"
    by (intro archiveAll_order_free [of ids database d1 ids' d2]) simp_all
  then show "ListArchivedConversations d1 = ListArchivedConversations d2"
    by simp
next
  show "sorted (map (\<lambda>c. - UpdatedAt c) (ListArchivedConversations database))"
    unfolding ListArchivedConversations_def by (rule sorted_sort_key)
next
  show "map_sum id (\<lambda>database. map ConversationID (ListArchivedConversations database))
     (archiveAll [''C'', ''B'', ''A'']
        [\<lparr>ConversationID = ''A'', Slug = Some ''conv-oldest-activity'', CreatedAt = 0,
           UpdatedAt = 36000, Archived = False\<rparr>,
         \<lparr>ConversationID = ''B'', Slug = Some ''conv-newest-activity'', CreatedAt = 0,
           UpdatedAt = 50400, Archived = False\<rparr>,
         \<lparr>ConversationID = ''C'', Slug = Some ''conv-middle-activity'', CreatedAt = 0,
           UpdatedAt = 43200, Archived = False\<rparr>]) =
     Inr [''B'', ''C'', ''A'']"
    by (rule archive_scenario)
qed

theorem archive_keeps_updated_at_witness:
  "ArchiveConversation
     [\<lparr>ConversationID = ''c'', Slug = Some ''test-archive-timestamp'', CreatedAt = 5,
        UpdatedAt = 34200, Archived = False\<rparr>] ''c'' =
     Inr [\<lparr>ConversationID = ''c'', Slug = Some ''test-archive-timestamp'', CreatedAt = 5,
            UpdatedAt = 34200, Archived = True\<rparr>] \<and>
   map UpdatedAt
     [\<lparr>ConversationID = ''c'', Slug = Some ''test-archive-timestamp'', CreatedAt = 5,
        UpdatedAt = 34200, Archived = True\<rparr>] = [34200]"
proof -
  let ?db = "[\<lparr>ConversationID = ''c'', Slug = Some ''test-archive-timestamp'', CreatedAt = 5,
        UpdatedAt = 34200, Archived = False\<rparr>]"
  let ?db' = "[\<lparr>ConversationID = ''c'', Slug = Some ''test-archive-timestamp'', CreatedAt = 5,
        UpdatedAt = 34200, Archived = True\<rparr>]"
  have run: "ArchiveConversation ?db ''c'' = Inr ?db'"
    by (simp add: ArchiveConversation_def updateRow_def)
  from archive_keeps_updated_at [where database = ?db and conversationID = "''c''"
      and database' = ?db'] run
  have "map UpdatedAt ?db' = map UpdatedAt ?db"
    by simp
  then have "map UpdatedAt ?db' = [34200]"
    by simp
  with run show ?thesis
    by simp
qed

end
